theory Spec2Isabelle
  imports Complex_Main
begin

section \<open>Data model (types.ts)\<close>

datatype CellStatus = HIDDEN | REVEALED | FLAGGED | EXPLODED

record Cell =
  row :: int
  col :: int
  isMine :: bool
  status :: CellStatus
  neighborMines :: nat

datatype error = TypeError

text \<open>
  Cells are JavaScript objects: a grid holds references to them, and the grid operations
  write fields of the objects they reach. The store maps an address to the object that
  lives there; \<open>nxt\<close> is the next unused address, so an object literal allocates at
  \<open>nxt\<close>. The arrays themselves are only ever built, never written after they have been
  built, so a grid is a list of rows of addresses.
\<close>

type_synonym addr = nat

record heap =
  cells :: "addr \<Rightarrow> Cell"
  nxt :: addr

type_synonym grid = "addr list list"

definition alloc :: "heap \<Rightarrow> Cell \<Rightarrow> heap \<times> addr" where
  "alloc h v = (h\<lparr>cells := (cells h)(nxt h := v), nxt := Suc (nxt h)\<rparr>, nxt h)"

definition setStatus :: "heap \<Rightarrow> addr \<Rightarrow> CellStatus \<Rightarrow> heap" where
  "setStatus h a s = h\<lparr>cells := (cells h)(a := (cells h a)\<lparr>status := s\<rparr>)\<rparr>"

definition setIsMine :: "heap \<Rightarrow> addr \<Rightarrow> bool \<Rightarrow> heap" where
  "setIsMine h a b = h\<lparr>cells := (cells h)(a := (cells h a)\<lparr>isMine := b\<rparr>)\<rparr>"

definition setNeighborMines :: "heap \<Rightarrow> addr \<Rightarrow> nat \<Rightarrow> heap" where
  "setNeighborMines h a k = h\<lparr>cells := (cells h)(a := (cells h a)\<lparr>neighborMines := k\<rparr>)\<rparr>"

text \<open>
  \<open>grid[r][c]\<close>: an index outside an array reads \<open>undefined\<close>, and the next property
  access on it throws a TypeError. \<open>refAt\<close> is \<open>None\<close> exactly there.
\<close>

definition inGrid :: "grid \<Rightarrow> int \<Rightarrow> int \<Rightarrow> bool" where
  "inGrid g r c \<longleftrightarrow> 0 \<le> r \<and> r < int (length g) \<and> 0 \<le> c \<and> c < int (length (g ! nat r))"

definition refAt :: "grid \<Rightarrow> int \<Rightarrow> int \<Rightarrow> addr option" where
  "refAt g r c = (if inGrid g r c then Some (g ! nat r ! nat c) else None)"

definition cellAt :: "heap \<Rightarrow> grid \<Rightarrow> int \<Rightarrow> int \<Rightarrow> Cell option" where
  "cellAt h g r c = map_option (cells h) (refAt g r c)"

text \<open>The grid as a value: the objects the references point to.\<close>

definition snapshot :: "heap \<Rightarrow> grid \<Rightarrow> Cell list list" where
  "snapshot h g = map (map (cells h)) g"

section \<open>Grid engine\<close>

subsection \<open>createEmptyGrid\<close>

fun emptyRow :: "heap \<Rightarrow> int \<Rightarrow> nat \<Rightarrow> nat \<Rightarrow> heap \<times> addr list" where
  "emptyRow h r c 0 = (h, [])"
| "emptyRow h r c (Suc k) =
     (let (h1, a) = alloc h \<lparr>row = r, col = int c, isMine = False, status = HIDDEN,
                              neighborMines = 0\<rparr>;
          (h2, as) = emptyRow h1 r (Suc c) k
      in (h2, a # as))"

fun emptyRows :: "heap \<Rightarrow> nat \<Rightarrow> nat \<Rightarrow> nat \<Rightarrow> heap \<times> grid" where
  "emptyRows h sz r 0 = (h, [])"
| "emptyRows h sz r (Suc k) =
     (let (h1, rw) = emptyRow h (int r) 0 sz;
          (h2, rws) = emptyRows h1 sz (Suc r) k
      in (h2, rw # rws))"

definition createEmptyGrid :: "heap \<Rightarrow> nat \<Rightarrow> heap \<times> grid" where
  "createEmptyGrid h sz = emptyRows h sz 0 sz"

subsection \<open>The copy every operation starts with\<close>

text \<open>\<open>grid.map((row) => row.map((cell) => ({ ...cell })))\<close>: a new object per cell.\<close>

fun copyRow :: "heap \<Rightarrow> addr list \<Rightarrow> heap \<times> addr list" where
  "copyRow h [] = (h, [])"
| "copyRow h (a # as) =
     (let (h1, a') = alloc h (cells h a);
          (h2, as') = copyRow h1 as
      in (h2, a' # as'))"

fun copyGrid :: "heap \<Rightarrow> grid \<Rightarrow> heap \<times> grid" where
  "copyGrid h [] = (h, [])"
| "copyGrid h (rw # rws) =
     (let (h1, rw') = copyRow h rw;
          (h2, rws') = copyGrid h1 rws
      in (h2, rw' # rws'))"

subsection \<open>toggleFlag\<close>

definition toggleFlag :: "heap \<Rightarrow> grid \<Rightarrow> int \<Rightarrow> int \<Rightarrow> error + heap \<times> grid" where
  "toggleFlag h g r c =
     (let (h1, newGrid) = copyGrid h g in
      case refAt newGrid r c of
        None \<Rightarrow> Inl TypeError
      | Some a \<Rightarrow>
          if status (cells h1 a) = HIDDEN then Inr (setStatus h1 a FLAGGED, newGrid)
          else if status (cells h1 a) = FLAGGED then Inr (setStatus h1 a HIDDEN, newGrid)
          else Inr (h1, newGrid))"

subsection \<open>checkWinCondition\<close>

text \<open>
  Both loops run to \<open>grid.length\<close>; the first non-mine cell that is not Revealed ends
  the search with \<open>false\<close>. \<open>k\<close> counts the iterations left.
\<close>

fun winCols :: "heap \<Rightarrow> grid \<Rightarrow> int \<Rightarrow> int \<Rightarrow> nat \<Rightarrow> error + bool" where
  "winCols h g r c 0 = Inr True"
| "winCols h g r c (Suc k) =
     (case refAt g r c of
        None \<Rightarrow> Inl TypeError
      | Some a \<Rightarrow>
          if \<not> isMine (cells h a) \<and> status (cells h a) \<noteq> REVEALED then Inr False
          else winCols h g r (c + 1) k)"

fun winRows :: "heap \<Rightarrow> grid \<Rightarrow> int \<Rightarrow> nat \<Rightarrow> error + bool" where
  "winRows h g r 0 = Inr True"
| "winRows h g r (Suc k) =
     (case winCols h g r 0 (length g) of
        Inl e \<Rightarrow> Inl e
      | Inr False \<Rightarrow> Inr False
      | Inr True \<Rightarrow> winRows h g (r + 1) k)"

definition checkWinCondition :: "heap \<Rightarrow> grid \<Rightarrow> error + bool" where
  "checkWinCondition h g = winRows h g 0 (length g)"

subsection \<open>revealCell\<close>

text \<open>
  The nine pushes of the two nested \<open>dr\<close>, \<open>dc\<close> loops, in the order they are made.
  The work list is a list whose head is the top of the stack, so the pushes end up
  reversed in front of the rest.
\<close>

definition pushes :: "int \<Rightarrow> int \<Rightarrow> (int \<times> int) list" where
  "pushes r c = [(r - 1, c - 1), (r - 1, c), (r - 1, c + 1),
                 (r, c - 1), (r, c), (r, c + 1),
                 (r + 1, c - 1), (r + 1, c), (r + 1, c + 1)]"

definition hiddenRefs :: "heap \<Rightarrow> grid \<Rightarrow> addr set" where
  "hiddenRefs h g = {a \<in> set (concat g). status (cells h a) = HIDDEN}"

function flood :: "heap \<Rightarrow> grid \<Rightarrow> (int \<times> int) list \<Rightarrow> error + heap" where
  "flood h g [] = Inr h"
| "flood h g ((r, c) # stack) =
     (if r < 0 \<or> r \<ge> int (length g) \<or> c < 0 \<or> c \<ge> int (length g) then flood h g stack
      else case refAt g r c of
        None \<Rightarrow> Inl TypeError
      | Some a \<Rightarrow>
          if status (cells h a) \<noteq> HIDDEN then flood h g stack
          else if neighborMines (cells (setStatus h a REVEALED) a) = 0
            then flood (setStatus h a REVEALED) g (rev (pushes r c) @ stack)
            else flood (setStatus h a REVEALED) g stack)"
  by pat_completeness auto

lemma hiddenRefs_finite: "finite (hiddenRefs h g)"
  by (simp add: hiddenRefs_def)

lemma hiddenRefs_reveal:
  assumes "refAt g r c = Some a" and "status (cells h a) = HIDDEN"
  shows "card (hiddenRefs (setStatus h a REVEALED) g) < card (hiddenRefs h g)"
proof -
  have mem: "a \<in> set (concat g)"
    using assms(1) by (auto simp: refAt_def inGrid_def split: if_splits intro!: bexI [of _ "g ! nat r"])
  have "hiddenRefs (setStatus h a REVEALED) g \<subseteq> hiddenRefs h g - {a}"
    by (auto simp: hiddenRefs_def setStatus_def)
  moreover have "a \<in> hiddenRefs h g"
    using mem assms(2) by (simp add: hiddenRefs_def)
  ultimately show ?thesis
    by (metis hiddenRefs_finite card_Diff1_less card_mono finite_Diff le_less_trans)
qed

termination flood
  by (relation "measures [\<lambda>(h, g, stack). card (hiddenRefs h g), \<lambda>(h, g, stack). length stack]")
     (auto simp: hiddenRefs_reveal)

definition revealCell :: "heap \<Rightarrow> grid \<Rightarrow> int \<Rightarrow> int \<Rightarrow> error + heap \<times> grid \<times> bool" where
  "revealCell h g r c =
     (let (h1, newGrid) = copyGrid h g in
      case refAt newGrid r c of
        None \<Rightarrow> Inl TypeError
      | Some a \<Rightarrow>
          if status (cells h1 a) \<noteq> HIDDEN then Inr (h1, newGrid, False)
          else if isMine (cells h1 a) then Inr (setStatus h1 a EXPLODED, newGrid, True)
          else case flood h1 newGrid [(r, c)] of
                 Inl e \<Rightarrow> Inl e
               | Inr h2 \<Rightarrow> Inr (h2, newGrid, False))"

subsection \<open>placeMines\<close>

text \<open>
  \<open>Math.random()\<close> is a number in \<open>[0, 1)\<close>; the stream of its results is a parameter.
  The placement loop has no bound of its own: on a finite prefix of the stream it either
  returns, throws, or is still running when the prefix is used up (\<open>None\<close>).
  \<open>mineCount\<close> is a count of cells, a natural number.
\<close>

definition randIndex :: "real \<Rightarrow> nat \<Rightarrow> int" where
  "randIndex u sz = \<lfloor>u * real sz\<rfloor>"

fun placeLoop ::
  "heap \<Rightarrow> grid \<Rightarrow> nat \<Rightarrow> nat \<Rightarrow> int \<Rightarrow> int \<Rightarrow> real list \<Rightarrow> (error + heap) option" where
  "placeLoop h g mineCount minesPlaced safeRow safeCol [] =
     (if minesPlaced < mineCount then None else Some (Inr h))"
| "placeLoop h g mineCount minesPlaced safeRow safeCol [u] =
     (if minesPlaced < mineCount then None else Some (Inr h))"
| "placeLoop h g mineCount minesPlaced safeRow safeCol (u1 # u2 # us) =
     (if minesPlaced < mineCount then
        (let r = randIndex u1 (length g);
             c = randIndex u2 (length g);
             isSafeZone = (\<bar>r - safeRow\<bar> \<le> 1 \<and> \<bar>c - safeCol\<bar> \<le> 1)
         in case refAt g r c of
              None \<Rightarrow> Some (Inl TypeError)
            | Some a \<Rightarrow>
                if \<not> isMine (cells h a) \<and> \<not> isSafeZone
                then placeLoop (setIsMine h a True) g mineCount (Suc minesPlaced) safeRow safeCol us
                else placeLoop h g mineCount minesPlaced safeRow safeCol us)
      else Some (Inr h))"

text \<open>A \<open>for\<close> loop over the listed indices that stops at the first throw.\<close>

primrec forEach :: "'i list \<Rightarrow> ('i \<Rightarrow> 's \<Rightarrow> error + 's) \<Rightarrow> 's \<Rightarrow> error + 's" where
  "forEach [] f s = Inr s"
| "forEach (i # is) f s = (case f i s of Inl e \<Rightarrow> Inl e | Inr s' \<Rightarrow> forEach is f s')"

definition countStep :: "heap \<Rightarrow> grid \<Rightarrow> nat \<Rightarrow> int \<Rightarrow> int \<Rightarrow> nat \<Rightarrow> error + nat" where
  "countStep h g sz nr nc count =
     (if nr \<ge> 0 \<and> nr < int sz \<and> nc \<ge> 0 \<and> nc < int sz then
        (case refAt g nr nc of
           None \<Rightarrow> Inl TypeError
         | Some a \<Rightarrow> if isMine (cells h a) then Inr (count + 1) else Inr count)
      else Inr count)"

definition countAround :: "heap \<Rightarrow> grid \<Rightarrow> nat \<Rightarrow> int \<Rightarrow> int \<Rightarrow> error + nat" where
  "countAround h g sz r c =
     forEach [-1, 0, 1] (\<lambda>dr. forEach [-1, 0, 1] (\<lambda>dc. countStep h g sz (r + dr) (c + dc))) 0"

definition numberCell :: "grid \<Rightarrow> nat \<Rightarrow> int \<Rightarrow> int \<Rightarrow> heap \<Rightarrow> error + heap" where
  "numberCell g sz r c h =
     (case refAt g r c of
        None \<Rightarrow> Inl TypeError
      | Some a \<Rightarrow>
          if \<not> isMine (cells h a) then
            (case countAround h g sz r c of
               Inl e \<Rightarrow> Inl e
             | Inr count \<Rightarrow> Inr (setNeighborMines h a count))
          else Inr h)"

definition calcNumbers :: "heap \<Rightarrow> grid \<Rightarrow> nat \<Rightarrow> error + heap" where
  "calcNumbers h g sz =
     forEach (map int [0..<sz]) (\<lambda>r. forEach (map int [0..<sz]) (\<lambda>c. numberCell g sz r c)) h"

definition placeMines ::
  "heap \<Rightarrow> grid \<Rightarrow> nat \<Rightarrow> int \<Rightarrow> int \<Rightarrow> real list \<Rightarrow> (error + heap \<times> grid) option" where
  "placeMines h g mineCount safeRow safeCol us =
     (let (h1, newGrid) = copyGrid h g in
      case placeLoop h1 newGrid mineCount 0 safeRow safeCol us of
        None \<Rightarrow> None
      | Some (Inl e) \<Rightarrow> Some (Inl e)
      | Some (Inr h2) \<Rightarrow>
          (case calcNumbers h2 newGrid (length g) of
             Inl e \<Rightarrow> Some (Inl e)
           | Inr h3 \<Rightarrow> Some (Inr (h3, newGrid))))"

section \<open>Ballistics (App.tsx)\<close>

text \<open>
  JavaScript numbers are modelled as real numbers: the arithmetic is exact, and rounding
  is outside the model. A \<open>Vector\<close> \<open>{x, y}\<close> is a pair.
\<close>

type_synonym Vector = "real \<times> real"

definition PHYS_POWER :: real where "PHYS_POWER = 0.15"
definition PHYS_Z_POWER :: real where "PHYS_Z_POWER = 0.15"
definition PHYS_GRAVITY :: real where "PHYS_GRAVITY = 0.5"
definition PHYS_DRAG :: real where "PHYS_DRAG = 0.995"

subsection \<open>calculateLandingPos\<close>

text \<open>The loop variables \<open>x, y, z, vx, vy, currVz\<close>, in this order.\<close>

type_synonym flight = "real \<times> real \<times> real \<times> real \<times> real \<times> real"

definition tick :: "flight \<Rightarrow> flight" where
  "tick s = (case s of (x, y, z, vx, vy, currVz) \<Rightarrow>
     (x + vx, y + vy, z + currVz, vx * PHYS_DRAG, vy * PHYS_DRAG, currVz - PHYS_GRAVITY))"

definition altitude :: "flight \<Rightarrow> real" where
  "altitude s = (case s of (x, y, z, vx, vy, currVz) \<Rightarrow> z)"

definition ground :: "flight \<Rightarrow> Vector" where
  "ground s = (case s of (x, y, z, vx, vy, currVz) \<Rightarrow> (x, y))"

fun landLoop :: "nat \<Rightarrow> flight \<Rightarrow> flight" where
  "landLoop 0 s = s"
| "landLoop (Suc k) s = (let s' = tick s in if altitude s' \<le> 0 then s' else landLoop k s')"

definition calculateLandingPos :: "Vector \<Rightarrow> Vector \<Rightarrow> real \<Rightarrow> Vector" where
  "calculateLandingPos startPos velocity vz =
     ground (landLoop 800 (fst startPos, snd startPos, 0, fst velocity, snd velocity, vz))"

subsection \<open>solveForPull\<close>

text \<open>The loop variables \<open>vH, vZ, h, d\<close> of \<open>simulateRange\<close>.\<close>

fun rangeLoop :: "nat \<Rightarrow> real \<Rightarrow> real \<Rightarrow> real \<Rightarrow> real \<Rightarrow> real" where
  "rangeLoop 0 vH vZ h d = d"
| "rangeLoop (Suc k) vH vZ h d =
     (if h + vZ \<le> 0 then d + vH
      else rangeLoop k (vH * PHYS_DRAG) (vZ - PHYS_GRAVITY) (h + vZ) (d + vH))"

definition simulateRange :: "real \<Rightarrow> real" where
  "simulateRange pull = rangeLoop 800 (pull * PHYS_POWER) (pull * PHYS_Z_POWER) 0 0"

fun bisect :: "nat \<Rightarrow> real \<Rightarrow> real \<Rightarrow> real \<Rightarrow> real \<times> real" where
  "bisect 0 targetDist mn mx = (mn, mx)"
| "bisect (Suc k) targetDist mn mx =
     (let mid = (mn + mx) / 2 in
      if simulateRange mid < targetDist then bisect k targetDist mid mx
      else bisect k targetDist mn mid)"

definition solveForPull :: "real \<Rightarrow> real" where
  "solveForPull targetDist = (case bisect 30 targetDist 0 3000 of (mn, mx) \<Rightarrow> (mn + mx) / 2)"

subsection \<open>The animation step of the projectile\<close>

datatype ProjectileType = PROBE | FLAG

record Projectile =
  position :: Vector
  pz :: real
  velocity :: Vector
  pvz :: real
  active :: bool
  ptype :: ProjectileType

definition GRAVITY_Z :: real where "GRAVITY_Z = 0.5"
definition AIR_DRAG :: real where "AIR_DRAG = 0.995"

text \<open>
  One call of \<open>animate\<close> on the active projectile, on a canvas of the given width: the
  projectile after the call and the calls of \<open>onHit\<close> it made, in order, each with the
  position and the type it was given.
\<close>

definition landStep :: "Projectile \<times> (Vector \<times> ProjectileType) list \<Rightarrow> Projectile \<times> (Vector \<times> ProjectileType) list" where
  "landStep s = (case s of (p, hits) \<Rightarrow>
     if pz p \<le> 0 then (p\<lparr>pz := 0, active := False\<rparr>, hits @ [(position p, ptype p)])
     else (p, hits))"

definition boundsStep :: "real \<Rightarrow> Projectile \<times> (Vector \<times> ProjectileType) list \<Rightarrow> Projectile \<times> (Vector \<times> ProjectileType) list" where
  "boundsStep width s = (case s of (p, hits) \<Rightarrow>
     if snd (position p) < -100 \<or> fst (position p) < -100 \<or> fst (position p) > width + 100
     then (p\<lparr>active := False\<rparr>, hits @ [(position p, ptype p)])
     else (p, hits))"

definition animate :: "real \<Rightarrow> Projectile \<Rightarrow> Projectile \<times> (Vector \<times> ProjectileType) list" where
  "animate width p =
     (if active p then
        boundsStep width (landStep
          (p\<lparr>position := (fst (position p) + fst (velocity p), snd (position p) + snd (velocity p)),
             pz := pz p + pvz p,
             pvz := pvz p - GRAVITY_Z,
             velocity := (fst (velocity p) * AIR_DRAG, snd (velocity p) * AIR_DRAG)\<rparr>, []))
      else (p, []))"

text \<open>The frames of one flight: \<open>animate\<close> called again and again on the same object.\<close>

fun frames :: "nat \<Rightarrow> real \<Rightarrow> Projectile \<Rightarrow> (Vector \<times> ProjectileType) list" where
  "frames 0 width p = []"
| "frames (Suc k) width p = (case animate width p of (p', hits) \<Rightarrow> hits @ frames k width p')"

subsection \<open>initLevel\<close>

definition START_SIZE :: int where "START_SIZE = 5"
definition MAX_SIZE :: int where "MAX_SIZE = 30"
definition SIZE_INCREMENT :: int where "SIZE_INCREMENT = 5"

record LevelSetup =
  gridSize :: int
  mineCount :: int

definition initLevel :: "int \<Rightarrow> LevelSetup" where
  "initLevel lvl =
     (let sz = min (START_SIZE + (lvl - 1) * SIZE_INCREMENT) MAX_SIZE;
          density = min (0.10 + (real_of_int lvl * 0.01)) (0.20 :: real);
          mines = \<lfloor>real_of_int (sz * sz) * density\<rfloor>
      in \<lparr>gridSize = sz, mineCount = mines\<rparr>)"

section \<open>Well-formed grids\<close>

text \<open>
  A square grid has \<open>n\<close> rows of \<open>n\<close> cells. A grid is allocated in a store when
  every reference in it points below \<open>nxt\<close>, as every reference to a live object does.
\<close>

definition squareGrid :: "grid \<Rightarrow> nat \<Rightarrow> bool" where
  "squareGrid g n \<longleftrightarrow> length g = n \<and> (\<forall>rw \<in> set g. length rw = n)"

definition allocated :: "heap \<Rightarrow> grid \<Rightarrow> bool" where
  "allocated h g \<longleftrightarrow> (\<forall>a \<in> set (concat g). a < nxt h)"

section \<open>The copy is fresh and equal to the original\<close>

lemma copyRow_spec:
  "copyRow h as = (h', as') \<Longrightarrow>
     nxt h' = nxt h + length as \<and> as' = [nxt h ..< nxt h + length as] \<and>
     (\<forall>a < nxt h. cells h' a = cells h a) \<and>
     ((\<forall>a \<in> set as. a < nxt h) \<longrightarrow> map (cells h') as' = map (cells h) as)"
proof (induction as arbitrary: h h' as')
  case Nil
  then show ?case by simp
next
  case (Cons a as)
  obtain h1 a' where al: "alloc h (cells h a) = (h1, a')" by fastforce
  obtain h2 as2 where cr: "copyRow h1 as = (h2, as2)" by fastforce
  from Cons.prems al cr have res: "h' = h2" "as' = a' # as2" by auto
  from al have h1: "nxt h1 = Suc (nxt h)" "a' = nxt h" "cells h1 = (cells h)(nxt h := cells h a)"
    by (auto simp: alloc_def)
  note ih = Cons.IH [OF cr]
  have 1: "nxt h' = nxt h + length (a # as)" using ih h1 res by simp
  have 2: "as' = [nxt h ..< nxt h + length (a # as)]"
    using ih h1 res upt_conv_Cons [of "nxt h" "nxt h + length (a # as)"] by simp
  have 3: "\<forall>b < nxt h. cells h' b = cells h b" using ih h1 res by simp
  have 4: "(\<forall>b \<in> set (a # as). b < nxt h) \<longrightarrow> map (cells h') as' = map (cells h) (a # as)"
  proof
    assume a: "\<forall>b \<in> set (a # as). b < nxt h"
    then have "\<forall>b \<in> set as. b < nxt h1" using h1 by auto
    with ih have "map (cells h2) as2 = map (cells h1) as" by blast
    also have "\<dots> = map (cells h) as" using a h1 by auto
    finally have t: "map (cells h2) as2 = map (cells h) as" .
    have "cells h2 a' = cells h1 a'" using ih h1 by simp
    then have "cells h2 a' = cells h a" using h1 by simp
    with t res show "map (cells h') as' = map (cells h) (a # as)" by simp
  qed
  show ?case by (intro conjI 1 2 3 4)
qed

lemma copyGrid_spec:
  "copyGrid h g = (h', g') \<Longrightarrow>
     nxt h \<le> nxt h' \<and> (\<forall>a < nxt h. cells h' a = cells h a) \<and>
     map length g' = map length g \<and> concat g' = [nxt h ..< nxt h'] \<and>
     (allocated h g \<longrightarrow> snapshot h' g' = snapshot h g)"
proof (induction g arbitrary: h h' g')
  case Nil
  then show ?case by (simp add: snapshot_def)
next
  case (Cons rw rws)
  obtain h1 rw' where cr: "copyRow h rw = (h1, rw')" by fastforce
  obtain h2 rws' where cg: "copyGrid h1 rws = (h2, rws')" by fastforce
  from Cons.prems cr cg have res: "h' = h2" "g' = rw' # rws'" by auto
  from copyRow_spec [OF cr] have
    r1: "nxt h1 = nxt h + length rw" and r2: "rw' = [nxt h ..< nxt h + length rw]" and
    r3: "\<forall>a < nxt h. cells h1 a = cells h a" and
    r4: "(\<forall>a \<in> set rw. a < nxt h) \<longrightarrow> map (cells h1) rw' = map (cells h) rw"
    by blast+
  from Cons.IH [OF cg] have
    i1: "nxt h1 \<le> nxt h2" and i2: "\<forall>a < nxt h1. cells h2 a = cells h1 a" and
    i3: "map length rws' = map length rws" and i4: "concat rws' = [nxt h1 ..< nxt h2]" and
    i5: "allocated h1 rws \<longrightarrow> snapshot h2 rws' = snapshot h1 rws"
    by blast+
  have 1: "nxt h \<le> nxt h'" using r1 i1 res by simp
  have 2: "\<forall>a < nxt h. cells h' a = cells h a" using r1 r3 i2 res by simp
  have 3: "map length g' = map length (rw # rws)" using r2 i3 res by simp
  have 4: "concat g' = [nxt h ..< nxt h']"
  proof -
    have "concat g' = [nxt h ..< nxt h1] @ [nxt h1 ..< nxt h2]" using r1 r2 i4 res by simp
    moreover have "nxt h \<le> nxt h1" using r1 by simp
    ultimately show ?thesis using res i1
      by (metis le_Suc_ex upt_add_eq_append)
  qed
  have 5: "allocated h (rw # rws) \<longrightarrow> snapshot h' g' = snapshot h (rw # rws)"
  proof
    assume a: "allocated h (rw # rws)"
    then have a2: "\<forall>a \<in> set rw. a < nxt h" and a3: "\<forall>a \<in> set (concat rws). a < nxt h"
      by (auto simp: allocated_def)
    from a3 r1 have a1: "allocated h1 rws" unfolding allocated_def by fastforce
    have "\<forall>a \<in> set rw'. a < nxt h1" using r1 r2 by simp
    then have "map (cells h2) rw' = map (cells h1) rw'" using i2 by simp
    then have e1: "map (cells h2) rw' = map (cells h) rw" using r4 a2 by simp
    have "\<forall>x \<in> set rws. \<forall>b \<in> set x. cells h1 b = cells h b"
      using a3 r3 by auto
    then have "snapshot h1 rws = snapshot h rws"
      unfolding snapshot_def by simp
    then have e2: "snapshot h2 rws' = snapshot h rws" using i5 a1 by simp
    show "snapshot h' g' = snapshot h (rw # rws)"
      using e1 e2 res by (simp add: snapshot_def)
  qed
  show ?case by (intro conjI 1 2 3 4 5)
qed

lemma inGrid_square:
  "squareGrid g n \<Longrightarrow> inGrid g r c \<longleftrightarrow> 0 \<le> r \<and> r < int n \<and> 0 \<le> c \<and> c < int n"
  by (auto simp: squareGrid_def inGrid_def)

lemma nth_concat_inj:
  "distinct (concat g) \<Longrightarrow> i < length g \<Longrightarrow> i' < length g \<Longrightarrow> j < length (g ! i) \<Longrightarrow>
   j' < length (g ! i') \<Longrightarrow> g ! i ! j = g ! i' ! j' \<Longrightarrow> i = i' \<and> j = j'"
proof (induction g arbitrary: i i')
  case Nil
  then show ?case by simp
next
  case (Cons rw g)
  have mem: "g ! k ! l \<in> set (concat g)" if "k < length g" "l < length (g ! k)" for k l
    using that by (auto intro!: bexI [of _ "g ! k"])
  have disj: "\<forall>x \<in> set rw. x \<notin> set (concat g)" using Cons.prems(1) by auto
  have dr: "distinct rw" and dg: "distinct (concat g)" using Cons.prems(1) by auto
  show ?case
  proof (cases i)
    case 0
    show ?thesis
    proof (cases i')
      case 0
      with \<open>i = 0\<close> Cons.prems dr show ?thesis by (auto simp: nth_eq_iff_index_eq)
    next
      case (Suc k')
      with \<open>i = 0\<close> Cons.prems have f: "j < length rw" "rw ! j = g ! k' ! j'"
        "k' < length g" "j' < length (g ! k')" by auto
      from f(1) have "rw ! j \<in> set rw" by (rule nth_mem)
      with f disj mem [of k' j'] show ?thesis by metis
    qed
  next
    case (Suc k)
    show ?thesis
    proof (cases i')
      case 0
      with \<open>i = Suc k\<close> Cons.prems have f: "j' < length rw" "rw ! j' = g ! k ! j"
        "k < length g" "j < length (g ! k)" by auto
      from f(1) have "rw ! j' \<in> set rw" by (rule nth_mem)
      with f disj mem [of k j] show ?thesis by metis
    next
      case (Suc k')
      with \<open>i = Suc k\<close> Cons.prems dg Cons.IH [of k k'] show ?thesis by auto
    qed
  qed
qed

definition updCell :: "heap \<Rightarrow> addr \<Rightarrow> Cell \<Rightarrow> heap" where
  "updCell h a v = h\<lparr>cells := (cells h)(a := v)\<rparr>"

lemma refAt_Some_iff: "refAt g r c = Some a \<longleftrightarrow> inGrid g r c \<and> a = g ! nat r ! nat c"
  by (auto simp: refAt_def)

lemma refAt_None_iff: "refAt g r c = None \<longleftrightarrow> \<not> inGrid g r c"
  by (auto simp: refAt_def)

lemma inGrid_nat: "inGrid g r c \<Longrightarrow> nat r < length g \<and> nat c < length (g ! nat r)"
  by (auto simp: inGrid_def)

lemma refAt_inj:
  assumes "distinct (concat g)" "refAt g r c = Some a" "refAt g r' c' = Some a"
  shows "r = r' \<and> c = c'"
proof -
  from assms have i: "inGrid g r c" "inGrid g r' c'" "g ! nat r ! nat c = g ! nat r' ! nat c'"
    by (auto simp: refAt_Some_iff)
  then have "nat r = nat r' \<and> nat c = nat c'"
    using nth_concat_inj [OF assms(1), of "nat r" "nat r'" "nat c" "nat c'"]
      inGrid_nat [of g r c] inGrid_nat [of g r' c']
    by auto
  with i show ?thesis by (auto simp: inGrid_def)
qed

lemma cellAt_updCell:
  assumes "distinct (concat g)" "refAt g r c = Some a"
  shows "cellAt (updCell h a v) g r' c' = (if r' = r \<and> c' = c then Some v else cellAt h g r' c')"
proof (cases "refAt g r' c'")
  case None
  with assms show ?thesis by (auto simp: cellAt_def)
next
  case (Some b)
  show ?thesis
  proof (cases "b = a")
    case True
    with Some assms refAt_inj [OF assms(1) assms(2), of r' c'] show ?thesis
      by (auto simp: cellAt_def updCell_def)
  next
    case False
    with Some assms show ?thesis by (auto simp: cellAt_def updCell_def)
  qed
qed

lemma snapshot_nth:
  "inGrid g r c \<Longrightarrow> snapshot h g ! nat r ! nat c = cells h (g ! nat r ! nat c)"
  using inGrid_nat [of g r c] by (simp add: snapshot_def)

lemma snapshot_updCell:
  assumes d: "distinct (concat g)" and i: "inGrid g r c"
  shows "snapshot (updCell h (g ! nat r ! nat c) v) g =
         (snapshot h g)[nat r := (snapshot h g ! nat r)[nat c := v]]"
proof (rule nth_equalityI)
  show "length (snapshot (updCell h (g ! nat r ! nat c) v) g) =
        length ((snapshot h g)[nat r := (snapshot h g ! nat r)[nat c := v]])"
    by (simp add: snapshot_def)
next
  fix k assume "k < length (snapshot (updCell h (g ! nat r ! nat c) v) g)"
  then have k: "k < length g" by (simp add: snapshot_def)
  show "snapshot (updCell h (g ! nat r ! nat c) v) g ! k =
        (snapshot h g)[nat r := (snapshot h g ! nat r)[nat c := v]] ! k"
  proof (rule nth_equalityI)
    show "length (snapshot (updCell h (g ! nat r ! nat c) v) g ! k) =
          length ((snapshot h g)[nat r := (snapshot h g ! nat r)[nat c := v]] ! k)"
      using k inGrid_nat [OF i] by (cases "k = nat r") (simp_all add: snapshot_def)
  next
    fix l assume "l < length (snapshot (updCell h (g ! nat r ! nat c) v) g ! k)"
    with k have l: "l < length (g ! k)" by (simp add: snapshot_def)
    have eq: "g ! k ! l = g ! nat r ! nat c \<longleftrightarrow> k = nat r \<and> l = nat c"
      using nth_concat_inj [OF d, of k "nat r" l "nat c"] k l inGrid_nat [OF i] by auto
    show "snapshot (updCell h (g ! nat r ! nat c) v) g ! k ! l =
          (snapshot h g)[nat r := (snapshot h g ! nat r)[nat c := v]] ! k ! l"
      using k l eq inGrid_nat [OF i] by (auto simp: snapshot_def updCell_def nth_list_update)
  qed
qed

lemma setStatus_updCell: "setStatus h a s = updCell h a ((cells h a)\<lparr>status := s\<rparr>)"
  by (simp add: setStatus_def updCell_def)

lemma setIsMine_updCell: "setIsMine h a b = updCell h a ((cells h a)\<lparr>isMine := b\<rparr>)"
  by (simp add: setIsMine_def updCell_def)

lemma setNeighborMines_updCell:
  "setNeighborMines h a k = updCell h a ((cells h a)\<lparr>neighborMines := k\<rparr>)"
  by (simp add: setNeighborMines_def updCell_def)

text \<open>What the copy gives, in the terms the operations use.\<close>

lemma copyGrid_fresh:
  assumes "copyGrid h g = (h1, g1)"
  shows "distinct (concat g1)" and "\<forall>a \<in> set (concat g1). nxt h \<le> a \<and> a < nxt h1"
    and "map length g1 = map length g" and "\<forall>a < nxt h. cells h1 a = cells h a"
    and "nxt h \<le> nxt h1"
  using copyGrid_spec [OF assms] by auto

lemma copyGrid_snapshot:
  assumes "copyGrid h g = (h1, g1)" "allocated h g"
  shows "snapshot h1 g1 = snapshot h g"
  using copyGrid_spec [OF assms(1)] assms(2) by blast

lemma inGrid_cong: "map length g1 = map length g \<Longrightarrow> inGrid g1 r c = inGrid g r c"
  by (metis inGrid_def length_map nat_less_iff nth_map)

lemma cellAt_snapshot:
  "cellAt h g r c = (if inGrid g r c then Some (snapshot h g ! nat r ! nat c) else None)"
  by (simp add: cellAt_def refAt_def snapshot_nth)

lemma snapshot_lengths: "map length (snapshot h g) = map length g"
  by (simp add: snapshot_def)

lemma cellAt_copy:
  assumes "copyGrid h g = (h1, g1)" "allocated h g"
  shows "cellAt h1 g1 r c = cellAt h g r c"
  using copyGrid_snapshot [OF assms] copyGrid_fresh(3) [OF assms(1)] inGrid_cong [of g1 g r c]
  by (simp add: cellAt_snapshot)

definition safeOrRevealed :: "Cell \<Rightarrow> bool" where
  "safeOrRevealed cl \<longleftrightarrow> isMine cl \<or> status cl = REVEALED"

lemma squareGrid_inGrid:
  "squareGrid g n \<Longrightarrow> inGrid g r c \<longleftrightarrow> 0 \<le> r \<and> r < int n \<and> 0 \<le> c \<and> c < int n"
  by (auto simp: squareGrid_def inGrid_def)

lemma winCols_spec:
  assumes "squareGrid g n" "i < n"
  shows "c + k = n \<Longrightarrow>
    winCols h g (int i) (int c) k = Inr (\<forall>j. c \<le> j \<and> j < n \<longrightarrow> safeOrRevealed (cells h (g ! i ! j)))"
proof (induction k arbitrary: c)
  case 0
  then show ?case by auto
next
  case (Suc k)
  then have c: "c < n" by simp
  with assms have rf: "refAt g (int i) (int c) = Some (g ! i ! c)"
    by (simp add: refAt_def squareGrid_inGrid)
  from Suc.prems have "Suc c + k = n" by simp
  from Suc.IH [OF this] have ih: "winCols h g (int i) (int c + 1) k =
      Inr (\<forall>j. Suc c \<le> j \<and> j < n \<longrightarrow> safeOrRevealed (cells h (g ! i ! j)))"
    by (simp add: add.commute)
  have split: "(\<forall>j. c \<le> j \<and> j < n \<longrightarrow> P j) \<longleftrightarrow> P c \<and> (\<forall>j. Suc c \<le> j \<and> j < n \<longrightarrow> P j)" for P
    using c by (metis Suc_leD Suc_le_eq le_eq_less_or_eq order_refl)
  show ?case
    unfolding split [of "\<lambda>j. safeOrRevealed (cells h (g ! i ! j))"]
    using rf ih by (auto simp: safeOrRevealed_def)
qed

lemma winRows_spec:
  assumes "squareGrid g n"
  shows "i + k = n \<Longrightarrow>
    winRows h g (int i) k =
      Inr (\<forall>i'. i \<le> i' \<and> i' < n \<longrightarrow> (\<forall>j < n. safeOrRevealed (cells h (g ! i' ! j))))"
proof (induction k arbitrary: i)
  case 0
  then show ?case by auto
next
  case (Suc k)
  then have i: "i < n" by simp
  have len: "length g = n" using assms by (simp add: squareGrid_def)
  have wc: "winCols h g (int i) 0 (length g) = Inr (\<forall>j < n. safeOrRevealed (cells h (g ! i ! j)))"
    using winCols_spec [OF assms i, of 0 n h] len by simp
  from Suc.prems have "Suc i + k = n" by simp
  from Suc.IH [OF this] have ih: "winRows h g (int i + 1) k =
      Inr (\<forall>i'. Suc i \<le> i' \<and> i' < n \<longrightarrow> (\<forall>j < n. safeOrRevealed (cells h (g ! i' ! j))))"
    by (simp add: add.commute)
  have split: "(\<forall>j. i \<le> j \<and> j < n \<longrightarrow> P j) \<longleftrightarrow> P i \<and> (\<forall>j. Suc i \<le> j \<and> j < n \<longrightarrow> P j)" for P
    using i by (metis Suc_leD Suc_le_eq le_eq_less_or_eq order_refl)
  show ?case
    unfolding split [of "\<lambda>i'. \<forall>j < n. safeOrRevealed (cells h (g ! i' ! j))"]
    using wc ih by (cases "\<forall>j < n. safeOrRevealed (cells h (g ! i ! j))") simp_all
qed

lemma set_concat_snapshot: "set (concat (snapshot h g)) = cells h ` set (concat g)"
proof -
  have "concat (snapshot h g) = map (cells h) (concat g)"
    by (simp add: snapshot_def map_concat)
  then show ?thesis by simp
qed

lemma all_cells_iff:
  assumes "squareGrid g n"
  shows "(\<forall>i < n. \<forall>j < n. P (g ! i ! j)) \<longleftrightarrow> (\<forall>a \<in> set (concat g). P a)"
proof
  assume l: "\<forall>i < n. \<forall>j < n. P (g ! i ! j)"
  show "\<forall>a \<in> set (concat g). P a"
  proof
    fix a assume "a \<in> set (concat g)"
    then obtain rw where rw: "rw \<in> set g" "a \<in> set rw" by auto
    then obtain i j where "i < length g" "rw = g ! i" "j < length rw" "a = rw ! j"
      by (metis in_set_conv_nth)
    with assms rw l show "P a" by (auto simp: squareGrid_def)
  qed
next
  assume r: "\<forall>a \<in> set (concat g). P a"
  show "\<forall>i < n. \<forall>j < n. P (g ! i ! j)"
  proof (intro allI impI)
    fix i j assume "i < n" "j < n"
    with assms have "g ! i \<in> set g" "g ! i ! j \<in> set (g ! i)" by (auto simp: squareGrid_def)
    then have "g ! i ! j \<in> set (concat g)" by auto
    with r show "P (g ! i ! j)" by blast
  qed
qed

lemma checkWinCondition_cells:
  assumes "squareGrid g n"
  shows "checkWinCondition h g = Inr (\<forall>cl \<in> set (concat (snapshot h g)). safeOrRevealed cl)"
proof -
  have len: "length g = n" using assms by (auto simp: squareGrid_def)
  have "checkWinCondition h g = Inr (\<forall>i < n. \<forall>j < n. safeOrRevealed (cells h (g ! i ! j)))"
    using winRows_spec [OF assms, of 0 n h] len by (simp add: checkWinCondition_def)
  then show ?thesis
    unfolding all_cells_iff [OF assms, of "\<lambda>a. safeOrRevealed (cells h a)"] set_concat_snapshot
    by simp
qed

text \<open>
  C3. On a square grid \<open>checkWinCondition\<close> returns true if and only if every cell that
  is not a mine is Revealed, and setting the status of a mine to anything leaves the
  result as it is.
\<close>

theorem checkWinCondition_iff:
  assumes "squareGrid g n"
  shows "checkWinCondition h g =
           Inr (\<forall>cl \<in> set (concat (snapshot h g)). \<not> isMine cl \<longrightarrow> status cl = REVEALED) \<and>
         (\<forall>a s. isMine (cells h a) \<longrightarrow> checkWinCondition (setStatus h a s) g = checkWinCondition h g)"
proof -
  have 1: "checkWinCondition h g =
      Inr (\<forall>cl \<in> set (concat (snapshot h g)). \<not> isMine cl \<longrightarrow> status cl = REVEALED)" for h
    unfolding checkWinCondition_cells [OF assms] by (auto simp: safeOrRevealed_def)
  have 2: "checkWinCondition (setStatus h a s) g = checkWinCondition h g" if "isMine (cells h a)" for a s
    unfolding checkWinCondition_cells [OF assms] set_concat_snapshot
    using that by (auto simp: setStatus_def safeOrRevealed_def) 
  from 1 2 show ?thesis by blast
qed

text \<open>
  C5. On a cell in range whose status is not Hidden, \<open>revealCell\<close> returns a grid equal
  to the input grid, cell by cell, and \<open>exploded = false\<close>; called again on what it
  returned, it returns the same again.
\<close>

theorem revealCell_not_hidden:
  assumes "allocated h g" and "refAt g r c = Some a" and "status (cells h a) \<noteq> HIDDEN"
  shows "\<exists>h1 g1 h2 g2. revealCell h g r c = Inr (h1, g1, False) \<and> snapshot h1 g1 = snapshot h g \<and>
           revealCell h1 g1 r c = Inr (h2, g2, False) \<and> snapshot h2 g2 = snapshot h g"
proof -
  have step: "\<exists>h1 g1. revealCell h g r c = Inr (h1, g1, False) \<and> snapshot h1 g1 = snapshot h g \<and>
                allocated h1 g1 \<and> (\<exists>a1. refAt g1 r c = Some a1 \<and> status (cells h1 a1) \<noteq> HIDDEN)"
    if al: "allocated h g" and rf: "refAt g r c = Some a" and st: "status (cells h a) \<noteq> HIDDEN"
    for h g a
  proof -
    obtain h1 g1 where cp: "copyGrid h g = (h1, g1)" by fastforce
    have ca: "cellAt h1 g1 r c = cellAt h g r c" by (rule cellAt_copy [OF cp al])
    with rf obtain a1 where a1: "refAt g1 r c = Some a1" "cells h1 a1 = cells h a"
      by (auto simp: cellAt_def)
    have "allocated h1 g1" using copyGrid_fresh(2) [OF cp] by (auto simp: allocated_def)
    moreover have "revealCell h g r c = Inr (h1, g1, False)"
      using cp a1 st by (simp add: revealCell_def)
    ultimately show ?thesis using copyGrid_snapshot [OF cp al] a1 st by auto
  qed
  from step [OF assms] obtain h1 g1 a1 where
    1: "revealCell h g r c = Inr (h1, g1, False)" "snapshot h1 g1 = snapshot h g"
       "allocated h1 g1" "refAt g1 r c = Some a1" "status (cells h1 a1) \<noteq> HIDDEN"
    by blast
  from step [OF 1(3) 1(4) 1(5)] obtain h2 g2 where
    2: "revealCell h1 g1 r c = Inr (h2, g2, False)" "snapshot h2 g2 = snapshot h1 g1"
    by blast
  from 1 2 show ?thesis by auto
qed

text \<open>
  C6. On a Hidden mine in range, \<open>revealCell\<close> returns \<open>exploded = true\<close> and a grid that
  is the input grid with the status of that one cell set to Exploded: every other cell,
  and the other fields of that cell, are as they were.
\<close>

theorem revealCell_mine:
  assumes "allocated h g" and "refAt g r c = Some a"
    and "status (cells h a) = HIDDEN" and "isMine (cells h a)"
  shows "\<exists>h1 g1. revealCell h g r c = Inr (h1, g1, True) \<and>
           snapshot h1 g1 =
             (snapshot h g)[nat r := (snapshot h g ! nat r)[nat c := (cells h a)\<lparr>status := EXPLODED\<rparr>]]"
proof -
  obtain h1 g1 where cp: "copyGrid h g = (h1, g1)" by fastforce
  have ca: "cellAt h1 g1 r c = cellAt h g r c" by (rule cellAt_copy [OF cp assms(1)])
  with assms(2) obtain a1 where a1: "refAt g1 r c = Some a1" "cells h1 a1 = cells h a"
    by (auto simp: cellAt_def)
  then have ig: "inGrid g1 r c" "a1 = g1 ! nat r ! nat c" by (auto simp: refAt_Some_iff)
  have rv: "revealCell h g r c = Inr (setStatus h1 a1 EXPLODED, g1, True)"
    using cp a1 assms(3,4) by (simp add: revealCell_def)
  have "snapshot (setStatus h1 a1 EXPLODED) g1 =
        (snapshot h1 g1)[nat r := (snapshot h1 g1 ! nat r)[nat c := (cells h1 a1)\<lparr>status := EXPLODED\<rparr>]]"
    unfolding setStatus_updCell ig(2)
    by (rule snapshot_updCell [OF copyGrid_fresh(1) [OF cp] ig(1)])
  with rv a1 copyGrid_snapshot [OF cp assms(1)] show ?thesis by simp
qed

text \<open>
  A grid to try the operations on: 3 by 3, one mine in the corner (2,2), the numbers
  around it in place, and a flag on the mine-free corner (0,2).
\<close>

definition demoCell :: "addr \<Rightarrow> Cell" where
  "demoCell a = \<lparr>row = int (a div 3), col = int (a mod 3), isMine = (a = 8),
                 status = (if a = 2 then FLAGGED else HIDDEN),
                 neighborMines = (if a = 4 \<or> a = 5 \<or> a = 7 then 1 else 0)\<rparr>"

definition demoHeap :: heap where
  "demoHeap = \<lparr>cells = demoCell, nxt = 9\<rparr>"

definition demoGrid :: grid where
  "demoGrid = [[0, 1, 2], [3, 4, 5], [6, 7, 8]]"

lemma demo_allocated: "allocated demoHeap demoGrid"
  by (simp add: allocated_def demoHeap_def demoGrid_def)

lemma demo_square: "squareGrid demoGrid 3"
  by (simp add: squareGrid_def demoGrid_def)

lemma demo_refAt:
  "refAt demoGrid 0 0 = Some 0" "refAt demoGrid 0 2 = Some 2" "refAt demoGrid 2 2 = Some 8"
  by (simp_all add: refAt_def inGrid_def demoGrid_def)

theorem checkWinCondition_iff_witness:
  "checkWinCondition demoHeap demoGrid = Inr False \<and>
   checkWinCondition (setStatus demoHeap 8 FLAGGED) demoGrid = Inr False"
proof -
  from checkWinCondition_iff [OF demo_square, of demoHeap] have
    1: "checkWinCondition demoHeap demoGrid =
          Inr (\<forall>cl \<in> set (concat (snapshot demoHeap demoGrid)). \<not> isMine cl \<longrightarrow> status cl = REVEALED)"
    and 2: "isMine (cells demoHeap 8) \<longrightarrow>
          checkWinCondition (setStatus demoHeap 8 FLAGGED) demoGrid = checkWinCondition demoHeap demoGrid"
    by blast+
  have 3: "checkWinCondition demoHeap demoGrid = Inr False"
    unfolding 1 by (simp add: snapshot_def demoHeap_def demoGrid_def demoCell_def)
  have "isMine (cells demoHeap 8)" by (simp add: demoHeap_def demoCell_def)
  with 2 3 show ?thesis by simp
qed

theorem revealCell_not_hidden_witness:
  "\<exists>h1 g1 h2 g2. revealCell demoHeap demoGrid 0 2 = Inr (h1, g1, False) \<and>
      snapshot h1 g1 = snapshot demoHeap demoGrid \<and>
      revealCell h1 g1 0 2 = Inr (h2, g2, False) \<and> snapshot h2 g2 = snapshot demoHeap demoGrid"
  by (rule revealCell_not_hidden [OF demo_allocated demo_refAt(2)])
     (simp add: demoHeap_def demoCell_def)

theorem revealCell_mine_witness:
  "\<exists>h1 g1. revealCell demoHeap demoGrid 2 2 = Inr (h1, g1, True) \<and>
      snapshot h1 g1 =
        [[demoCell 0, demoCell 1, demoCell 2], [demoCell 3, demoCell 4, demoCell 5],
         [demoCell 6, demoCell 7, (demoCell 8)\<lparr>status := EXPLODED\<rparr>]]"
proof -
  have "status (cells demoHeap 8) = HIDDEN" "isMine (cells demoHeap 8)"
    by (simp_all add: demoHeap_def demoCell_def)
  from revealCell_mine [OF demo_allocated demo_refAt(3) this]
  show ?thesis by (simp add: snapshot_def demoHeap_def demoGrid_def)
qed

section \<open>The flood fill\<close>

text \<open>
  What a grid looks like from outside: the cell at each position in range. The regions
  the flood fill is measured against are sets of positions of such a view.
\<close>

type_synonym view = "int \<Rightarrow> int \<Rightarrow> Cell option"

definition hiddenAt :: "view \<Rightarrow> int \<times> int \<Rightarrow> bool" where
  "hiddenAt V p \<longleftrightarrow> (\<exists>cl. V (fst p) (snd p) = Some cl \<and> status cl = HIDDEN)"

definition zeroAt :: "view \<Rightarrow> int \<times> int \<Rightarrow> bool" where
  "zeroAt V p \<longleftrightarrow> (\<exists>cl. V (fst p) (snd p) = Some cl \<and> neighborMines cl = 0)"

definition numberedAt :: "view \<Rightarrow> int \<times> int \<Rightarrow> bool" where
  "numberedAt V p \<longleftrightarrow> (\<exists>cl. V (fst p) (snd p) = Some cl \<and> 0 < neighborMines cl)"

definition mineAt :: "view \<Rightarrow> int \<times> int \<Rightarrow> bool" where
  "mineAt V p \<longleftrightarrow> (\<exists>cl. V (fst p) (snd p) = Some cl \<and> isMine cl)"

text \<open>Two positions are adjacent when they are at Chebyshev distance at most 1.\<close>

definition adjacent :: "int \<times> int \<Rightarrow> int \<times> int \<Rightarrow> bool" where
  "adjacent p q \<longleftrightarrow> \<bar>fst p - fst q\<bar> \<le> 1 \<and> \<bar>snd p - snd q\<bar> \<le> 1"

text \<open>
  The maximal 8-connected region of cells with the property \<open>P\<close> that contains the
  start: everything a path of adjacent \<open>P\<close>-cells reaches from it.
\<close>

inductive_set region :: "(int \<times> int \<Rightarrow> bool) \<Rightarrow> int \<times> int \<Rightarrow> (int \<times> int) set"
  for P :: "int \<times> int \<Rightarrow> bool" and start :: "int \<times> int" where
  start: "start \<in> region P start"
| step: "p \<in> region P start \<Longrightarrow> adjacent p q \<Longrightarrow> P q \<Longrightarrow> q \<in> region P start"

text \<open>The numbered Hidden cells that border a set of positions.\<close>

definition border :: "view \<Rightarrow> (int \<times> int) set \<Rightarrow> (int \<times> int) set" where
  "border V R = {q. hiddenAt V q \<and> numberedAt V q \<and> (\<exists>p \<in> R. adjacent p q)}"

definition hiddenZero :: "view \<Rightarrow> int \<times> int \<Rightarrow> bool" where
  "hiddenZero V p \<longleftrightarrow> hiddenAt V p \<and> zeroAt V p"

definition floodTarget :: "view \<Rightarrow> int \<times> int \<Rightarrow> (int \<times> int) set" where
  "floodTarget V start = region (hiddenZero V) start \<union> border V (region (hiddenZero V) start)"

definition reveal :: "Cell \<Rightarrow> Cell" where
  "reveal cl = cl\<lparr>status := REVEALED\<rparr>"

text \<open>
  The loop invariant, for the view \<open>V0\<close> the flood fill started on, the positions \<open>D\<close>
  revealed so far, the current view \<open>V\<close> and the work list.
\<close>

definition floodInv ::
  "view \<Rightarrow> int \<times> int \<Rightarrow> (int \<times> int) set \<Rightarrow> view \<Rightarrow> (int \<times> int) list \<Rightarrow> bool" where
  "floodInv V0 start D V stack \<longleftrightarrow>
     (\<forall>r c. V r c = (if (r, c) \<in> D then map_option reveal (V0 r c) else V0 r c)) \<and>
     (\<forall>p \<in> D. hiddenAt V0 p \<and> p \<in> floodTarget V0 start) \<and>
     (\<forall>s \<in> set stack. hiddenAt V0 s \<longrightarrow> s \<in> floodTarget V0 start) \<and>
     (\<forall>p \<in> D. zeroAt V0 p \<longrightarrow> (\<forall>q. adjacent p q \<and> hiddenAt V0 q \<longrightarrow> q \<in> D \<or> q \<in> set stack)) \<and>
     (start \<in> D \<or> start \<in> set stack)"

lemma adjacent_pushes: "adjacent (r, c) q \<longleftrightarrow> q \<in> set (pushes r c)"
proof -
  have a: "\<bar>i - j\<bar> \<le> 1 \<longleftrightarrow> j = i - 1 \<or> j = i \<or> j = i + 1" for i j :: int by auto
  show ?thesis
    by (cases q) (auto simp: adjacent_def pushes_def a)
qed

lemma floodTarget_zero_region:
  assumes "p \<in> floodTarget V start" "hiddenZero V p"
  shows "p \<in> region (hiddenZero V) start"
  using assms by (auto simp: floodTarget_def border_def hiddenZero_def zeroAt_def numberedAt_def)

lemma floodTarget_neighbour:
  assumes "p \<in> region (hiddenZero V) start" "adjacent p q" "hiddenAt V q"
  shows "q \<in> floodTarget V start"
proof (cases "zeroAt V q")
  case True
  with assms have "q \<in> region (hiddenZero V) start"
    by (auto intro: region.step simp: hiddenZero_def)
  then show ?thesis by (simp add: floodTarget_def)
next
  case False
  with assms(3) have "numberedAt V q" by (auto simp: hiddenAt_def zeroAt_def numberedAt_def)
  with assms show ?thesis by (auto simp: floodTarget_def border_def)
qed

lemma floodInv_view:
  "floodInv V0 start D V stack \<Longrightarrow>
   V r c = (if (r, c) \<in> D then map_option reveal (V0 r c) else V0 r c)"
  unfolding floodInv_def by blast

lemma floodInv_revealed:
  "floodInv V0 start D V stack \<Longrightarrow> p \<in> D \<Longrightarrow> hiddenAt V0 p \<and> p \<in> floodTarget V0 start"
  unfolding floodInv_def by blast

lemma floodInv_stack:
  "floodInv V0 start D V stack \<Longrightarrow> s \<in> set stack \<Longrightarrow> hiddenAt V0 s \<Longrightarrow>
   s \<in> floodTarget V0 start"
  unfolding floodInv_def by blast

lemma floodInv_closed:
  "floodInv V0 start D V stack \<Longrightarrow> p \<in> D \<Longrightarrow> zeroAt V0 p \<Longrightarrow> adjacent p q \<Longrightarrow>
   hiddenAt V0 q \<Longrightarrow> q \<in> D \<or> q \<in> set stack"
  unfolding floodInv_def by blast

lemma floodInv_start: "floodInv V0 start D V stack \<Longrightarrow> start \<in> D \<or> start \<in> set stack"
  unfolding floodInv_def by blast

lemma floodInvI:
  assumes "\<And>r c. V r c = (if (r, c) \<in> D then map_option reveal (V0 r c) else V0 r c)"
    and "\<And>p. p \<in> D \<Longrightarrow> hiddenAt V0 p \<and> p \<in> floodTarget V0 start"
    and "\<And>s. s \<in> set stack \<Longrightarrow> hiddenAt V0 s \<Longrightarrow> s \<in> floodTarget V0 start"
    and "\<And>p q. p \<in> D \<Longrightarrow> zeroAt V0 p \<Longrightarrow> adjacent p q \<Longrightarrow> hiddenAt V0 q \<Longrightarrow>
           q \<in> D \<or> q \<in> set stack"
    and "start \<in> D \<or> start \<in> set stack"
  shows "floodInv V0 start D V stack"
  unfolding floodInv_def using assms by blast

lemma floodInv_done:
  assumes inv: "floodInv V0 start D V []" and st: "hiddenZero V0 start"
  shows "D = floodTarget V0 start"
proof
  show "D \<subseteq> floodTarget V0 start" using floodInv_revealed [OF inv] by blast
next
  have sD: "start \<in> D" using floodInv_start [OF inv] by simp
  have cl: "q \<in> D" if "p \<in> D" "zeroAt V0 p" "adjacent p q" "hiddenAt V0 q" for p q
    using floodInv_closed [OF inv that] by simp
  have reg: "p \<in> D \<and> zeroAt V0 p" if "p \<in> region (hiddenZero V0) start" for p
    using that
  proof (induction rule: region.induct)
    case start
    with sD st show ?case by (simp add: hiddenZero_def)
  next
    case (step p q)
    with cl [of p q] show ?case by (simp add: hiddenZero_def)
  qed
  show "floodTarget V0 start \<subseteq> D"
  proof
    fix q assume "q \<in> floodTarget V0 start"
    then consider "q \<in> region (hiddenZero V0) start"
      | p where "p \<in> region (hiddenZero V0) start" "adjacent p q" "hiddenAt V0 q"
      unfolding floodTarget_def border_def by blast
    then show "q \<in> D"
    proof cases
      case 1
      with reg show ?thesis by blast
    next
      case 2
      with reg [of p] cl [of p q] show ?thesis by blast
    qed
  qed
qed

text \<open>A position popped from the work list that is outside the grid.\<close>

lemma floodInv_skip_outside:
  assumes inv: "floodInv V0 start D V ((r, c) # stack)" and out: "V0 r c = None"
    and st: "hiddenAt V0 start"
  shows "floodInv V0 start D V stack"
proof (rule floodInvI)
  fix r' c' show "V r' c' = (if (r', c') \<in> D then map_option reveal (V0 r' c') else V0 r' c')"
    by (rule floodInv_view [OF inv])
next
  fix p assume "p \<in> D"
  then show "hiddenAt V0 p \<and> p \<in> floodTarget V0 start" by (rule floodInv_revealed [OF inv])
next
  fix s assume "s \<in> set stack" "hiddenAt V0 s"
  then show "s \<in> floodTarget V0 start" using floodInv_stack [OF inv, of s] by simp
next
  fix p q assume a: "p \<in> D" "zeroAt V0 p" "adjacent p q" "hiddenAt V0 q"
  from a(4) out have "q \<noteq> (r, c)" by (auto simp: hiddenAt_def)
  with floodInv_closed [OF inv a] show "q \<in> D \<or> q \<in> set stack" by auto
next
  from st out have "start \<noteq> (r, c)" by (auto simp: hiddenAt_def)
  with floodInv_start [OF inv] show "start \<in> D \<or> start \<in> set stack" by auto
qed

text \<open>A position popped from the work list whose cell is not Hidden any more.\<close>

lemma floodInv_skip_not_hidden:
  assumes inv: "floodInv V0 start D V ((r, c) # stack)"
    and cur: "V r c = Some cl" "status cl \<noteq> HIDDEN"
    and st: "hiddenAt V0 start"
  shows "floodInv V0 start D V stack"
proof -
  have gone: "(r, c) \<in> D" if "hiddenAt V0 (r, c)"
  proof (rule ccontr)
    assume "(r, c) \<notin> D"
    with floodInv_view [OF inv, of r c] cur have "V0 r c = Some cl" by simp
    with that cur(2) show False by (simp add: hiddenAt_def)
  qed
  show ?thesis
  proof (rule floodInvI)
    fix r' c' show "V r' c' = (if (r', c') \<in> D then map_option reveal (V0 r' c') else V0 r' c')"
      by (rule floodInv_view [OF inv])
  next
    fix p assume "p \<in> D"
    then show "hiddenAt V0 p \<and> p \<in> floodTarget V0 start" by (rule floodInv_revealed [OF inv])
  next
    fix s assume "s \<in> set stack" "hiddenAt V0 s"
    then show "s \<in> floodTarget V0 start" using floodInv_stack [OF inv, of s] by simp
  next
    fix p q assume a: "p \<in> D" "zeroAt V0 p" "adjacent p q" "hiddenAt V0 q"
    with floodInv_closed [OF inv a] gone show "q \<in> D \<or> q \<in> set stack" by auto
  next
    show "start \<in> D \<or> start \<in> set stack"
    proof (cases "start = (r, c)")
      case True
      with st gone show ?thesis by simp
    next
      case False
      with floodInv_start [OF inv] show ?thesis by auto
    qed
  qed
qed

text \<open>A Hidden cell popped from the work list: it is revealed, and pushes its neighbours
  when its number is 0.\<close>

lemma floodInv_reveal:
  assumes inv: "floodInv V0 start D V ((r, c) # stack)"
    and cur: "V r c = Some cl" "status cl = HIDDEN"
    and new: "\<And>r' c'. V' r' c' = (if r' = r \<and> c' = c then Some (reveal cl) else V r' c')"
    and stk: "stack' = (if neighborMines cl = 0 then rev (pushes r c) @ stack else stack)"
  shows "floodInv V0 start (insert (r, c) D) V' stack'"
proof -
  have notD: "(r, c) \<notin> D"
  proof
    assume "(r, c) \<in> D"
    with floodInv_view [OF inv, of r c] cur(1) have "Some cl = map_option reveal (V0 r c)"
      by simp
    then obtain cl0 where "cl = reveal cl0" by (cases "V0 r c") auto
    with cur(2) show False by (simp add: reveal_def)
  qed
  with floodInv_view [OF inv, of r c] cur(1) have v0: "V0 r c = Some cl" by simp
  with cur(2) have hid: "hiddenAt V0 (r, c)" by (simp add: hiddenAt_def)
  with floodInv_stack [OF inv, of "(r, c)"] have tgt: "(r, c) \<in> floodTarget V0 start" by simp
  have sub: "set stack \<subseteq> set stack'" using stk by auto
  show ?thesis
  proof (rule floodInvI)
    fix r' c'
    show "V' r' c' = (if (r', c') \<in> insert (r, c) D then map_option reveal (V0 r' c') else V0 r' c')"
      using new [of r' c'] floodInv_view [OF inv, of r' c'] v0 by auto
  next
    fix p assume "p \<in> insert (r, c) D"
    with hid tgt floodInv_revealed [OF inv, of p]
    show "hiddenAt V0 p \<and> p \<in> floodTarget V0 start" by auto
  next
    fix s assume s: "s \<in> set stack'" "hiddenAt V0 s"
    show "s \<in> floodTarget V0 start"
    proof (cases "s \<in> set stack")
      case True
      with s floodInv_stack [OF inv, of s] show ?thesis by simp
    next
      case False
      with s(1) stk have z: "neighborMines cl = 0" and "s \<in> set (pushes r c)"
        by (auto split: if_splits)
      then have adj: "adjacent (r, c) s" by (simp add: adjacent_pushes)
      from z v0 hid have "hiddenZero V0 (r, c)" by (simp add: hiddenZero_def zeroAt_def)
      with tgt have "(r, c) \<in> region (hiddenZero V0) start" by (rule floodTarget_zero_region)
      then show ?thesis using adj s(2) by (rule floodTarget_neighbour)
    qed
  next
    fix p q assume a: "p \<in> insert (r, c) D" "zeroAt V0 p" "adjacent p q" "hiddenAt V0 q"
    show "q \<in> insert (r, c) D \<or> q \<in> set stack'"
    proof (cases "p = (r, c)")
      case True
      with a(2) v0 have "neighborMines cl = 0" by (simp add: zeroAt_def)
      moreover from True a(3) have "q \<in> set (pushes r c)" by (simp add: adjacent_pushes)
      ultimately show ?thesis using stk by simp
    next
      case False
      with a(1) have "p \<in> D" by simp
      from floodInv_closed [OF inv this a(2,3,4)] sub show ?thesis by auto
    qed
  next
    from floodInv_start [OF inv] sub show "start \<in> insert (r, c) D \<or> start \<in> set stack'" by auto
  qed
qed

lemma cellAt_setStatus:
  assumes "distinct (concat g)" "refAt g r c = Some a"
  shows "cellAt (setStatus h a s) g r' c' =
         (if r' = r \<and> c' = c then Some ((cells h a)\<lparr>status := s\<rparr>) else cellAt h g r' c')"
  unfolding setStatus_updCell by (rule cellAt_updCell [OF assms])

lemma refAt_mem: "refAt g r c = Some a \<Longrightarrow> a \<in> set (concat g)"
proof -
  assume "refAt g r c = Some a"
  then have "inGrid g r c" "a = g ! nat r ! nat c" by (auto simp: refAt_Some_iff)
  with inGrid_nat [of g r c] have "g ! nat r \<in> set g" "a \<in> set (g ! nat r)" by auto
  then show ?thesis by auto
qed

lemma flood_correct:
  assumes "squareGrid g n" and "distinct (concat g)" and "hiddenAt V0 start"
    and "floodInv V0 start D (cellAt h g) stack"
  shows "\<exists>h' D'. flood h g stack = Inr h' \<and> floodInv V0 start D' (cellAt h' g) [] \<and>
           (\<forall>a. a \<notin> set (concat g) \<longrightarrow> cells h' a = cells h a) \<and> nxt h' = nxt h"
  using assms
proof (induction h g stack arbitrary: D rule: flood.induct)
  case (1 h g)
  then show ?case by auto
next
  case (2 h g r c stack)
  note sq = "2.prems"(1) and d = "2.prems"(2) and st = "2.prems"(3) and inv = "2.prems"(4)
  have len: "length g = n" using sq by (simp add: squareGrid_def)
  show ?case
  proof (cases "r < 0 \<or> r \<ge> int (length g) \<or> c < 0 \<or> c \<ge> int (length g)")
    case True
    then have "\<not> inGrid g r c" using sq len by (auto simp: squareGrid_inGrid)
    then have none: "cellAt h g r c = None" by (simp add: cellAt_def refAt_def)
    have v0: "V0 r c = None"
    proof (cases "(r, c) \<in> D")
      case True
      with floodInv_view [OF inv, of r c] none show ?thesis by simp
    next
      case False
      with floodInv_view [OF inv, of r c] none show ?thesis by simp
    qed
    have "floodInv V0 start D (cellAt h g) stack"
      by (rule floodInv_skip_outside [OF inv v0 st])
    from "2.IH"(1) [OF True sq d st this] True show ?thesis by simp
  next
    case False
    then have "inGrid g r c" using sq len by (auto simp: squareGrid_inGrid)
    then obtain a where a: "refAt g r c = Some a" by (auto simp: refAt_def)
    then have cur: "cellAt h g r c = Some (cells h a)" by (simp add: cellAt_def)
    show ?thesis
    proof (cases "status (cells h a) \<noteq> HIDDEN")
      case True
      have "floodInv V0 start D (cellAt h g) stack"
        by (rule floodInv_skip_not_hidden [OF inv cur True st])
      from "2.IH"(2) [OF False a True sq d st this] False a True show ?thesis by simp
    next
      case hid: False
      let ?h = "setStatus h a REVEALED"
      have nm: "neighborMines (cells ?h a) = neighborMines (cells h a)"
        by (simp add: setStatus_def)
      have new: "cellAt ?h g r' c' =
          (if r' = r \<and> c' = c then Some (reveal (cells h a)) else cellAt h g r' c')" for r' c'
        unfolding reveal_def by (rule cellAt_setStatus [OF d a])
      have frame: "\<forall>b. b \<notin> set (concat g) \<longrightarrow> cells ?h b = cells h b"
        using refAt_mem [OF a] by (auto simp: setStatus_def)
      have nx: "nxt ?h = nxt h" by (simp add: setStatus_def)
      from hid have hid': "status (cells h a) = HIDDEN" by simp
      show ?thesis
      proof (cases "neighborMines (cells h a) = 0")
        case True
        have "floodInv V0 start (insert (r, c) D) (cellAt ?h g) (rev (pushes r c) @ stack)"
          by (rule floodInv_reveal [OF inv cur hid' new]) (simp add: True)
        from "2.IH"(3) [OF False a hid _ sq d st this] True nm
        obtain h' D' where "flood ?h g (rev (pushes r c) @ stack) = Inr h'"
          "floodInv V0 start D' (cellAt h' g) []"
          "\<forall>b. b \<notin> set (concat g) \<longrightarrow> cells h' b = cells ?h b" "nxt h' = nxt ?h"
          by auto
        with False a hid' True nm frame nx show ?thesis by auto
      next
        case nz: False
        have "floodInv V0 start (insert (r, c) D) (cellAt ?h g) stack"
          by (rule floodInv_reveal [OF inv cur hid' new]) (simp add: nz)
        from "2.IH"(4) [OF False a hid _ sq d st this] nz nm
        obtain h' D' where "flood ?h g stack = Inr h'"
          "floodInv V0 start D' (cellAt h' g) []"
          "\<forall>b. b \<notin> set (concat g) \<longrightarrow> cells h' b = cells ?h b" "nxt h' = nxt ?h"
          by auto
        with False a hid' nz nm frame nx show ?thesis by auto
      qed
    qed
  qed
qed

declare flood.simps [simp del]

definition neighbours :: "int \<Rightarrow> int \<Rightarrow> (int \<times> int) list" where
  "neighbours r c = [(r - 1, c - 1), (r - 1, c), (r - 1, c + 1),
                     (r, c - 1), (r, c + 1),
                     (r + 1, c - 1), (r + 1, c), (r + 1, c + 1)]"

text \<open>The number of mines among the cells of the grid next to a position.\<close>

definition adjacentMines :: "view \<Rightarrow> int \<Rightarrow> int \<Rightarrow> nat" where
  "adjacentMines V r c = length (filter (mineAt V) (neighbours r c))"

definition numbersValid :: "view \<Rightarrow> bool" where
  "numbersValid V \<longleftrightarrow>
     (\<forall>r c cl. V r c = Some cl \<longrightarrow> \<not> isMine cl \<longrightarrow> neighborMines cl = adjacentMines V r c)"

lemma adjacent_neighbours: "adjacent (r, c) q \<longleftrightarrow> q = (r, c) \<or> q \<in> set (neighbours r c)"
  unfolding adjacent_pushes by (auto simp: pushes_def neighbours_def)

lemma no_mine_next_to_zero:
  assumes "numbersValid V" "V r c = Some cl" "\<not> isMine cl" "neighborMines cl = 0"
    and "adjacent (r, c) q"
  shows "\<not> mineAt V q"
proof (cases "q = (r, c)")
  case True
  with assms(2,3) show ?thesis by (simp add: mineAt_def)
next
  case False
  with assms(5) have q: "q \<in> set (neighbours r c)" by (simp add: adjacent_neighbours)
  from assms(1-4) have "adjacentMines V r c = 0" unfolding numbersValid_def by metis
  then have "filter (mineAt V) (neighbours r c) = []" by (simp add: adjacentMines_def)
  with q show ?thesis by (simp add: filter_empty_conv)
qed

lemma region_safe:
  assumes nv: "numbersValid V" and st: "zeroAt V start" "\<not> mineAt V start"
    and p: "p \<in> region (hiddenZero V) start"
  shows "zeroAt V p \<and> \<not> mineAt V p"
  using p
proof (induction rule: region.induct)
  case start
  from st show ?case by simp
next
  case (step p q)
  then obtain cl where cl: "V (fst p) (snd p) = Some cl" "neighborMines cl = 0" "\<not> isMine cl"
    by (auto simp: zeroAt_def mineAt_def)
  from step.hyps(2) have "adjacent (fst p, snd p) q" by simp
  from no_mine_next_to_zero [OF nv cl(1) cl(3) cl(2) this] step.hyps(3)
  show ?case by (simp add: hiddenZero_def)
qed

lemma floodTarget_safe:
  assumes nv: "numbersValid V" and st: "zeroAt V start" "\<not> mineAt V start"
    and q: "q \<in> floodTarget V start"
  shows "\<not> mineAt V q"
proof -
  from q obtain p where p: "p \<in> region (hiddenZero V) start" "p = q \<or> adjacent p q"
    unfolding floodTarget_def border_def by blast
  from region_safe [OF nv st p(1)] obtain cl where
    cl: "V (fst p) (snd p) = Some cl" "neighborMines cl = 0" "\<not> isMine cl"
    by (auto simp: zeroAt_def mineAt_def)
  from p(2) have "adjacent (fst p, snd p) q" by (auto simp: adjacent_def)
  from no_mine_next_to_zero [OF nv cl(1) cl(3) cl(2) this] show ?thesis .
qed

lemma floodTarget_hidden:
  assumes "hiddenAt V start" "q \<in> floodTarget V start"
  shows "hiddenAt V q"
proof -
  have "hiddenAt V p" if "p \<in> region (hiddenZero V) start" for p
    using that assms(1) by (induction rule: region.induct) (simp_all add: hiddenZero_def)
  with assms(2) show ?thesis unfolding floodTarget_def border_def by blast
qed

text \<open>The flood fill from one Hidden cell of a square grid of distinct cells.\<close>

lemma flood_from_start:
  assumes sq: "squareGrid g n" and d: "distinct (concat g)"
    and a: "refAt g r c = Some a" and hid: "status (cells h a) = HIDDEN"
    and z: "neighborMines (cells h a) = 0"
  shows "\<exists>h'. flood h g [(r, c)] = Inr h' \<and>
           (\<forall>r' c'. cellAt h' g r' c' =
              (if (r', c') \<in> floodTarget (cellAt h g) (r, c)
               then map_option reveal (cellAt h g r' c') else cellAt h g r' c')) \<and>
           (\<forall>b. b \<notin> set (concat g) \<longrightarrow> cells h' b = cells h b) \<and> nxt h' = nxt h"
proof -
  let ?V = "cellAt h g"
  from a have cur: "?V r c = Some (cells h a)" by (simp add: cellAt_def)
  with hid have hs: "hiddenAt ?V (r, c)" by (simp add: hiddenAt_def)
  with cur z have hz: "hiddenZero ?V (r, c)" by (simp add: hiddenZero_def zeroAt_def)
  have "(r, c) \<in> floodTarget ?V (r, c)" by (simp add: floodTarget_def region.start)
  then have "floodInv ?V (r, c) {} ?V [(r, c)]" by (intro floodInvI) simp_all
  from flood_correct [OF sq d hs this] obtain h' D' where
    f: "flood h g [(r, c)] = Inr h'" "floodInv ?V (r, c) D' (cellAt h' g) []"
       "\<forall>b. b \<notin> set (concat g) \<longrightarrow> cells h' b = cells h b" "nxt h' = nxt h"
    by blast
  from floodInv_done [OF f(2) hz] have "D' = floodTarget ?V (r, c)" .
  with floodInv_view [OF f(2)] f(1,3,4) show ?thesis by simp
qed

lemma squareGrid_lengths: "squareGrid g n \<Longrightarrow> map length g1 = map length g \<Longrightarrow> squareGrid g1 n"
  unfolding squareGrid_def
  by (metis length_map in_set_conv_nth nth_map nth_mem)

lemma revealCell_floods:
  assumes "squareGrid g n" and "allocated h g"
    and "cellAt h g r c = Some cl" and "status cl = HIDDEN" and "\<not> isMine cl"
    and "neighborMines cl = 0"
  shows "\<exists>h1 g1. revealCell h g r c = Inr (h1, g1, False) \<and>
           (\<forall>r' c'. cellAt h1 g1 r' c' =
              (if (r', c') \<in> floodTarget (cellAt h g) (r, c)
               then map_option reveal (cellAt h g r' c') else cellAt h g r' c'))"
proof -
  obtain h1 g1 where cp: "copyGrid h g = (h1, g1)" by fastforce
  have V: "cellAt h1 g1 = cellAt h g"
    by (intro ext) (rule cellAt_copy [OF cp assms(2)])
  from assms(3) have "cellAt h1 g1 r c = Some cl" by (simp add: V)
  then obtain a where a: "refAt g1 r c = Some a" "cells h1 a = cl"
    by (auto simp: cellAt_def)
  have sq1: "squareGrid g1 n"
    by (rule squareGrid_lengths [OF assms(1) copyGrid_fresh(3) [OF cp]])
  have "status (cells h1 a) = HIDDEN" "neighborMines (cells h1 a) = 0"
    using a(2) assms(4,6) by simp_all
  from flood_from_start [OF sq1 copyGrid_fresh(1) [OF cp] a(1) this]
  obtain h2 where
    f: "flood h1 g1 [(r, c)] = Inr h2"
       "\<forall>r' c'. cellAt h2 g1 r' c' =
          (if (r', c') \<in> floodTarget (cellAt h1 g1) (r, c)
           then map_option reveal (cellAt h1 g1 r' c') else cellAt h1 g1 r' c')"
    by blast
  have rv: "revealCell h g r c = Inr (h2, g1, False)"
    using cp a assms(4,5) f(1) by (simp add: revealCell_def)
  from rv f(2) show ?thesis unfolding V by blast
qed

text \<open>
  C2, as the code has it. On a square grid whose numbers are the adjacent mine counts,
  \<open>revealCell\<close> on a Hidden cell that is no mine and has the number 0 returns
  \<open>exploded = false\<close> and the input grid with the status Revealed on exactly the cells of
  the maximal 8-connected region of Hidden cells with the number 0 that contains the
  cell, and on the numbered Hidden cells that border the region; every other cell is as
  it was, and none of the revealed cells is a mine.
\<close>

theorem revealCell_flood_fill:
  assumes "squareGrid g n" and "allocated h g" and "numbersValid (cellAt h g)"
    and "cellAt h g r c = Some cl" and "status cl = HIDDEN" and "\<not> isMine cl"
    and "neighborMines cl = 0"
  shows "\<exists>h1 g1. revealCell h g r c = Inr (h1, g1, False) \<and>
           (\<forall>r' c'. cellAt h1 g1 r' c' =
              (if (r', c') \<in> region (hiddenZero (cellAt h g)) (r, c) \<union>
                             border (cellAt h g) (region (hiddenZero (cellAt h g)) (r, c))
               then map_option reveal (cellAt h g r' c') else cellAt h g r' c')) \<and>
           (\<forall>p \<in> region (hiddenZero (cellAt h g)) (r, c) \<union>
                   border (cellAt h g) (region (hiddenZero (cellAt h g)) (r, c)).
              \<not> mineAt (cellAt h g) p)"
proof -
  have st: "zeroAt (cellAt h g) (r, c)" "\<not> mineAt (cellAt h g) (r, c)"
    using assms(4,6,7) by (simp_all add: zeroAt_def mineAt_def)
  have safe: "\<forall>p \<in> floodTarget (cellAt h g) (r, c). \<not> mineAt (cellAt h g) p"
    using floodTarget_safe [OF assms(3) st] by blast
  from revealCell_floods [OF assms(1,2,4,5,6,7)] safe show ?thesis
    unfolding floodTarget_def by blast
qed

lemma demo_view:
  "cellAt demoHeap demoGrid r c =
     (if 0 \<le> r \<and> r < 3 \<and> 0 \<le> c \<and> c < 3 then Some (demoCell (nat (3 * r + c))) else None)"
proof (cases "0 \<le> r \<and> r < 3 \<and> 0 \<le> c \<and> c < 3")
  case True
  then have "(r = 0 \<or> r = 1 \<or> r = 2) \<and> (c = 0 \<or> c = 1 \<or> c = 2)" by arith
  then show ?thesis
    by (auto simp: cellAt_def refAt_def inGrid_def demoGrid_def demoHeap_def)
next
  case False
  then have "\<not> inGrid demoGrid r c" using squareGrid_inGrid [OF demo_square] by auto
  with False show ?thesis by (simp add: cellAt_def refAt_def)
qed

lemma demo_mineAt: "mineAt (cellAt demoHeap demoGrid) p \<longleftrightarrow> p = (2, 2)"
proof (cases p)
  case (Pair r c)
  show ?thesis
  proof (cases "0 \<le> r \<and> r < 3 \<and> 0 \<le> c \<and> c < 3")
    case True
    then have "(r = 0 \<or> r = 1 \<or> r = 2) \<and> (c = 0 \<or> c = 1 \<or> c = 2)" by arith
    then show ?thesis unfolding Pair by (auto simp: mineAt_def demo_view demoCell_def)
  next
    case False
    then show ?thesis unfolding Pair by (auto simp: mineAt_def demo_view)
  qed
qed

lemma demo_numbersValid: "numbersValid (cellAt demoHeap demoGrid)"
  unfolding numbersValid_def
proof (intro allI impI)
  fix r c cl
  assume a: "cellAt demoHeap demoGrid r c = Some cl" "\<not> isMine cl"
  then have "0 \<le> r \<and> r < 3 \<and> 0 \<le> c \<and> c < 3" by (auto simp: demo_view split: if_splits)
  then have rc: "r = 0 \<or> r = 1 \<or> r = 2" "c = 0 \<or> c = 1 \<or> c = 2" by arith+
  have m: "mineAt (cellAt demoHeap demoGrid) = (\<lambda>p. p = (2, 2))"
    by (rule ext) (rule demo_mineAt)
  from a(1) have cl: "cl = demoCell (nat (3 * r + c))" by (simp add: demo_view split: if_splits)
  show "neighborMines cl = adjacentMines (cellAt demoHeap demoGrid) r c"
    unfolding adjacentMines_def m neighbours_def cl using rc
    by (elim disjE; simp add: demoCell_def)
qed

lemma demo_start:
  "cellAt demoHeap demoGrid 0 0 = Some (demoCell 0)" "status (demoCell 0) = HIDDEN"
  "\<not> isMine (demoCell 0)" "neighborMines (demoCell 0) = 0"
  by (simp_all add: demo_view demoCell_def)

lemma demo_region_01: "(0, 1) \<in> region (hiddenZero (cellAt demoHeap demoGrid)) (0, 0)"
proof -
  have "hiddenZero (cellAt demoHeap demoGrid) (0, 1)"
    by (simp add: hiddenZero_def hiddenAt_def zeroAt_def demo_view demoCell_def)
  moreover have "adjacent (0, 0) (0, 1)" by (simp add: adjacent_def)
  ultimately show ?thesis using region.start region.step by blast
qed

theorem revealCell_flood_fill_witness:
  "\<exists>h1 g1. revealCell demoHeap demoGrid 0 0 = Inr (h1, g1, False) \<and>
     cellAt h1 g1 0 1 = Some (reveal (demoCell 1)) \<and>
     cellAt h1 g1 1 1 = Some (reveal (demoCell 4)) \<and>
     cellAt h1 g1 2 2 = Some (demoCell 8)"
proof -
  let ?V = "cellAt demoHeap demoGrid"
  let ?T = "region (hiddenZero ?V) (0, 0) \<union> border ?V (region (hiddenZero ?V) (0, 0))"
  from revealCell_flood_fill [OF demo_square demo_allocated demo_numbersValid demo_start]
  obtain h1 g1 where
    r: "revealCell demoHeap demoGrid 0 0 = Inr (h1, g1, False)"
       "\<forall>r' c'. cellAt h1 g1 r' c' =
          (if (r', c') \<in> ?T then map_option reveal (?V r' c') else ?V r' c')"
       "\<forall>p \<in> ?T. \<not> mineAt ?V p"
    by blast
  have 1: "(0, 1) \<in> ?T" using demo_region_01 by simp
  have "hiddenAt ?V (1, 1)" "numberedAt ?V (1, 1)" "adjacent (0, 0) (1, 1)"
    by (simp_all add: hiddenAt_def numberedAt_def adjacent_def demo_view demoCell_def)
  then have 2: "(1, 1) \<in> ?T" unfolding border_def using region.start by blast
  have 3: "(2, 2) \<notin> ?T" using r(3) demo_mineAt by blast
  from r(2) 1 have "cellAt h1 g1 0 1 = Some (reveal (demoCell 1))" by (simp add: demo_view)
  moreover from r(2) 2 have "cellAt h1 g1 1 1 = Some (reveal (demoCell 4))" by (simp add: demo_view)
  moreover from r(2) 3 have "cellAt h1 g1 2 2 = Some (demoCell 8)" by (simp add: demo_view)
  ultimately show ?thesis using r(1) by blast
qed

text \<open>
  Claim C2 as stated, with the region taken over all cells with the number 0: on the
  3 by 3 grid the flagged corner (0,2) lies in the region of (0,0), and it is still
  Flagged after the call.
\<close>

theorem revealCell_region_counterexample:
  "squareGrid demoGrid 3 \<and> numbersValid (cellAt demoHeap demoGrid) \<and>
   hiddenZero (cellAt demoHeap demoGrid) (0, 0) \<and> \<not> mineAt (cellAt demoHeap demoGrid) (0, 0) \<and>
   (0, 2) \<in> region (zeroAt (cellAt demoHeap demoGrid)) (0, 0) \<and>
   (\<exists>h1 g1. revealCell demoHeap demoGrid 0 0 = Inr (h1, g1, False) \<and>
      map_option status (cellAt h1 g1 0 2) = Some FLAGGED)"
proof -
  let ?V = "cellAt demoHeap demoGrid"
  have hz: "hiddenZero ?V (0, 0)"
    by (simp add: hiddenZero_def hiddenAt_def zeroAt_def demo_view demoCell_def)
  have nm: "\<not> mineAt ?V (0, 0)" by (simp add: demo_mineAt)
  have "zeroAt ?V (0, 1)" "zeroAt ?V (0, 2)" "adjacent (0, 0) (0, 1)" "adjacent (0, 1) (0, 2)"
    by (simp_all add: zeroAt_def adjacent_def demo_view demoCell_def)
  then have reg: "(0, 2) \<in> region (zeroAt ?V) (0, 0)"
    using region.start region.step by meson
  from revealCell_floods [OF demo_square demo_allocated demo_start]
  obtain h1 g1 where
    r: "revealCell demoHeap demoGrid 0 0 = Inr (h1, g1, False)"
       "\<forall>r' c'. cellAt h1 g1 r' c' =
          (if (r', c') \<in> floodTarget ?V (0, 0) then map_option reveal (?V r' c') else ?V r' c')"
    by blast
  have "\<not> hiddenAt ?V (0, 2)" by (simp add: hiddenAt_def demo_view demoCell_def)
  moreover have "hiddenAt ?V (0, 0)" using hz by (simp add: hiddenZero_def)
  ultimately have "(0, 2) \<notin> floodTarget ?V (0, 0)" using floodTarget_hidden by blast
  with r(2) have "map_option status (cellAt h1 g1 0 2) = Some FLAGGED"
    by (simp add: demo_view demoCell_def)
  with r(1) demo_square demo_numbersValid hz nm reg show ?thesis by blast
qed

section \<open>Mine placement\<close>

definition minesIn :: "Cell list list \<Rightarrow> nat" where
  "minesIn cs = length (filter isMine (concat cs))"

definition safeZone :: "int \<Rightarrow> int \<Rightarrow> int \<Rightarrow> int \<Rightarrow> bool" where
  "safeZone safeRow safeCol r c \<longleftrightarrow> \<bar>r - safeRow\<bar> \<le> 1 \<and> \<bar>c - safeCol\<bar> \<le> 1"

definition safeZoneFree :: "view \<Rightarrow> int \<Rightarrow> int \<Rightarrow> bool" where
  "safeZoneFree V safeRow safeCol \<longleftrightarrow>
     (\<forall>r c cl. V r c = Some cl \<and> safeZone safeRow safeCol r c \<longrightarrow> \<not> isMine cl)"

lemma minesIn_snapshot:
  "minesIn (snapshot h g) = length (filter (\<lambda>a. isMine (cells h a)) (concat g))"
proof -
  have "concat (snapshot h g) = map (cells h) (concat g)"
    by (simp add: snapshot_def map_concat)
  then show ?thesis by (simp add: minesIn_def filter_map comp_def)
qed

lemma count_after_write:
  assumes "distinct xs" "a \<in> set xs" "\<not> P (f a)" "P v"
  shows "length (filter (\<lambda>b. P ((f(a := v)) b)) xs) = Suc (length (filter (\<lambda>b. P (f b)) xs))"
  using assms
proof (induction xs)
  case Nil
  then show ?case by simp
next
  case (Cons x xs)
  show ?case
  proof (cases "x = a")
    case True
    with Cons.prems have "a \<notin> set xs" by simp
    then have "filter (\<lambda>b. P ((f(a := v)) b)) xs = filter (\<lambda>b. P (f b)) xs"
      by (intro filter_cong) auto
    with True Cons.prems show ?thesis by simp
  next
    case False
    with Cons show ?thesis by simp
  qed
qed

lemma minesIn_setIsMine:
  assumes "distinct (concat g)" "refAt g r c = Some a" "\<not> isMine (cells h a)"
  shows "minesIn (snapshot (setIsMine h a True) g) = Suc (minesIn (snapshot h g))"
proof -
  have "cells (setIsMine h a True) = (cells h)(a := (cells h a)\<lparr>isMine := True\<rparr>)"
    by (simp add: setIsMine_def)
  then show ?thesis
    unfolding minesIn_snapshot
    using count_after_write [OF assms(1) refAt_mem [OF assms(2)], of isMine "cells h"
        "(cells h a)\<lparr>isMine := True\<rparr>"] assms(3)
    by simp
qed

text \<open>What the placement loop keeps: everything but the mines.\<close>

definition sameButMines :: "heap \<Rightarrow> heap \<Rightarrow> bool" where
  "sameButMines h h' \<longleftrightarrow>
     nxt h' = nxt h \<and> (\<forall>a. cells h' a = (cells h a)\<lparr>isMine := isMine (cells h' a)\<rparr>)"

lemma sameButMines_refl: "sameButMines h h"
  by (simp add: sameButMines_def)

lemma sameButMines_trans: "sameButMines h h1 \<Longrightarrow> sameButMines h1 h2 \<Longrightarrow> sameButMines h h2"
  unfolding sameButMines_def
  by (metis (no_types, lifting) Cell.surjective Cell.update_convs(3))

lemma placeLoop_spec:
  assumes "distinct (concat g)"
    and "placeLoop h g k m sr sc us = Some (Inr h')"
    and "minesIn (snapshot h g) = m" and "m \<le> k"
    and "safeZoneFree (cellAt h g) sr sc"
  shows "minesIn (snapshot h' g) = k \<and> safeZoneFree (cellAt h' g) sr sc \<and> sameButMines h h' \<and>
         (\<forall>a. a \<notin> set (concat g) \<longrightarrow> cells h' a = cells h a)"
  using assms
proof (induction h g k m sr sc us rule: placeLoop.induct)
  case (1 h g k m sr sc)
  then show ?case by (auto simp: sameButMines_refl split: if_splits)
next
  case (2 h g k m sr sc u)
  then show ?case by (auto simp: sameButMines_refl split: if_splits)
next
  case (3 h g k m sr sc u1 u2 us)
  note d = "3.prems"(1) and run = "3.prems"(2) and cnt = "3.prems"(3) and le = "3.prems"(4)
    and sf = "3.prems"(5)
  show ?case
  proof (cases "m < k")
    case False
    with run le cnt sf show ?thesis by (auto simp: sameButMines_refl)
  next
    case True
    let ?r = "randIndex u1 (length g)" and ?c = "randIndex u2 (length g)"
    from run True obtain a where a: "refAt g ?r ?c = Some a"
      by (cases "refAt g ?r ?c") (auto simp: Let_def)
    show ?thesis
    proof (cases "\<not> isMine (cells h a) \<and> \<not> (\<bar>?r - sr\<bar> \<le> 1 \<and> \<bar>?c - sc\<bar> \<le> 1)")
      case place: True
      let ?h = "setIsMine h a True"
      from run True a place have run': "placeLoop ?h g k (Suc m) sr sc us = Some (Inr h')"
        by (simp add: Let_def)
      have cnt': "minesIn (snapshot ?h g) = Suc m"
        using minesIn_setIsMine [OF d a] place cnt by simp
      have view: "cellAt ?h g r' c' =
          (if r' = ?r \<and> c' = ?c then Some ((cells h a)\<lparr>isMine := True\<rparr>) else cellAt h g r' c')"
        for r' c'
        unfolding setIsMine_updCell by (rule cellAt_updCell [OF d a])
      have sf': "safeZoneFree (cellAt ?h g) sr sc"
        unfolding safeZoneFree_def
      proof (intro allI impI)
        fix r' c' cl assume b: "cellAt ?h g r' c' = Some cl \<and> safeZone sr sc r' c'"
        show "\<not> isMine cl"
        proof (cases "r' = ?r \<and> c' = ?c")
          case True
          with b place show ?thesis by (simp add: safeZone_def)
        next
          case False
          with b view [of r' c'] sf show ?thesis unfolding safeZoneFree_def by auto
        qed
      qed
      from "3.IH"(1) [OF True refl refl refl a place d run' cnt' _ sf'] True
      have ih: "minesIn (snapshot h' g) = k" "safeZoneFree (cellAt h' g) sr sc"
        "sameButMines ?h h'" "\<forall>b. b \<notin> set (concat g) \<longrightarrow> cells h' b = cells ?h b"
        by auto
      have "sameButMines h ?h" by (simp add: sameButMines_def setIsMine_def)
      then have "sameButMines h h'" using ih(3) by (rule sameButMines_trans)
      moreover have "\<forall>b. b \<notin> set (concat g) \<longrightarrow> cells h' b = cells h b"
        using ih(4) refAt_mem [OF a] by (auto simp: setIsMine_def)
      ultimately show ?thesis using ih(1,2) by simp
    next
      case skip: False
      from run True a skip have run': "placeLoop h g k m sr sc us = Some (Inr h')"
        by (auto simp: Let_def)
      from "3.IH"(2) [OF True refl refl refl a skip d run' cnt le sf] show ?thesis .
    qed
  qed
qed

lemma forEach_sum:
  assumes "\<And>i k. i \<in> set is \<Longrightarrow> f i k = Inr (k + w i)"
  shows "forEach is f k = Inr (k + sum_list (map w is))"
  using assms by (induction "is" arbitrary: k) (simp_all add: add.assoc)

lemma length_filter_sum: "length (filter P xs) = sum_list (map (\<lambda>x. if P x then 1 else 0) xs)"
  by (induction xs) simp_all

lemma countStep_square:
  assumes "squareGrid g n"
  shows "countStep h g n nr nc k = Inr (k + (if mineAt (cellAt h g) (nr, nc) then 1 else 0))"
proof (cases "inGrid g nr nc")
  case True
  then have "nr \<ge> 0 \<and> nr < int n \<and> nc \<ge> 0 \<and> nc < int n"
    using squareGrid_inGrid [OF assms] by simp
  with True show ?thesis
    by (simp add: countStep_def refAt_def cellAt_def mineAt_def)
next
  case False
  then have "\<not> (nr \<ge> 0 \<and> nr < int n \<and> nc \<ge> 0 \<and> nc < int n)"
    using squareGrid_inGrid [OF assms] by simp
  with False show ?thesis
    by (simp add: countStep_def refAt_def cellAt_def mineAt_def)
qed

lemma countAround_square:
  assumes "squareGrid g n"
  shows "countAround h g n r c = Inr (length (filter (mineAt (cellAt h g)) (pushes r c)))"
proof -
  let ?w = "\<lambda>p. if mineAt (cellAt h g) p then 1 else 0 :: nat"
  have inner: "forEach [-1, 0, 1] (\<lambda>dc. countStep h g n (r + dr) (c + dc)) k =
      Inr (k + sum_list (map (\<lambda>dc. ?w (r + dr, c + dc)) [-1, 0, 1]))" for dr k
    by (rule forEach_sum) (rule countStep_square [OF assms])
  have "countAround h g n r c =
      Inr (0 + sum_list (map (\<lambda>dr. sum_list (map (\<lambda>dc. ?w (r + dr, c + dc)) [-1, 0, 1])) [-1, 0, 1]))"
    unfolding countAround_def by (rule forEach_sum) (rule inner)
  also have "\<dots> = Inr (sum_list (map ?w (pushes r c)))"
    by (simp add: pushes_def add.assoc)
  finally show ?thesis by (simp add: length_filter_sum)
qed

text \<open>The cell a position has once its number is in place.\<close>

definition numbered :: "view \<Rightarrow> int \<Rightarrow> int \<Rightarrow> Cell \<Rightarrow> Cell" where
  "numbered V r c cl = (if isMine cl then cl else cl\<lparr>neighborMines := adjacentMines V r c\<rparr>)"

definition numbersDone :: "heap \<Rightarrow> grid \<Rightarrow> (int \<times> int) set \<Rightarrow> heap \<Rightarrow> bool" where
  "numbersDone h0 g P h \<longleftrightarrow>
     (\<forall>r c. cellAt h g r c =
        (if (r, c) \<in> P then map_option (numbered (cellAt h0 g) r c) (cellAt h0 g r c)
         else cellAt h0 g r c)) \<and>
     (\<forall>a. a \<notin> set (concat g) \<longrightarrow> cells h a = cells h0 a) \<and> nxt h = nxt h0"

lemma numbersDone_mineAt:
  assumes "numbersDone h0 g P h"
  shows "mineAt (cellAt h g) = mineAt (cellAt h0 g)"
proof
  fix p :: "int \<times> int"
  obtain r c where p: "p = (r, c)" by (cases p)
  from assms have "cellAt h g r c =
        (if (r, c) \<in> P then map_option (numbered (cellAt h0 g) r c) (cellAt h0 g r c)
         else cellAt h0 g r c)" by (simp add: numbersDone_def)
  then show "mineAt (cellAt h g) p = mineAt (cellAt h0 g) p"
    unfolding p by (cases "cellAt h0 g r c") (auto simp: mineAt_def numbered_def)
qed

lemma numberCell_square:
  assumes sq: "squareGrid g n" and d: "distinct (concat g)"
    and inv: "numbersDone h0 g P h" and rc: "0 \<le> r" "r < int n" "0 \<le> c" "c < int n"
    and new: "(r, c) \<notin> P"
  shows "\<exists>h'. numberCell g n r c h = Inr h' \<and> numbersDone h0 g (insert (r, c) P) h'"
proof -
  from rc have "inGrid g r c" using squareGrid_inGrid [OF sq] by simp
  then obtain a where a: "refAt g r c = Some a" by (simp add: refAt_def)
  from inv new have cur: "cellAt h g r c = cellAt h0 g r c" by (simp add: numbersDone_def)
  with a have c0: "cellAt h0 g r c = Some (cells h a)" by (simp add: cellAt_def)
  show ?thesis
  proof (cases "isMine (cells h a)")
    case True
    have "numbersDone h0 g (insert (r, c) P) h"
      using inv c0 True unfolding numbersDone_def by (auto simp: numbered_def)
    with a True show ?thesis by (simp add: numberCell_def)
  next
    case False
    let ?k = "length (filter (mineAt (cellAt h g)) (pushes r c))"
    let ?h = "setNeighborMines h a ?k"
    have nc: "numberCell g n r c h = Inr ?h"
      using a False countAround_square [OF sq, of h r c] by (simp add: numberCell_def)
    have "\<not> mineAt (cellAt h g) (r, c)" using cur c0 False by (simp add: mineAt_def)
    then have "?k = length (filter (mineAt (cellAt h g)) (neighbours r c))"
      by (simp add: pushes_def neighbours_def)
    then have k: "?k = adjacentMines (cellAt h0 g) r c"
      by (simp add: adjacentMines_def numbersDone_mineAt [OF inv])
    have view: "cellAt ?h g r' c' =
        (if r' = r \<and> c' = c then Some ((cells h a)\<lparr>neighborMines := ?k\<rparr>) else cellAt h g r' c')"
      for r' c'
      unfolding setNeighborMines_updCell by (rule cellAt_updCell [OF d a])
    have "numbersDone h0 g (insert (r, c) P) ?h"
      unfolding numbersDone_def
    proof (intro conjI allI impI)
      fix r' c'
      show "cellAt ?h g r' c' =
        (if (r', c') \<in> insert (r, c) P
         then map_option (numbered (cellAt h0 g) r' c') (cellAt h0 g r' c') else cellAt h0 g r' c')"
      proof (cases "r' = r \<and> c' = c")
        case True
        with view [of r' c'] c0 False k show ?thesis by (simp add: numbered_def)
      next
        case False
        with view [of r' c'] inv show ?thesis by (auto simp: numbersDone_def)
      qed
    next
      fix b assume "b \<notin> set (concat g)"
      with refAt_mem [OF a] inv show "cells ?h b = cells h0 b"
        by (auto simp: setNeighborMines_def numbersDone_def)
    next
      from inv show "nxt ?h = nxt h0" by (simp add: setNeighborMines_def numbersDone_def)
    qed
    with nc show ?thesis by simp
  qed
qed

text \<open>A loop over distinct indices whose steps keep an invariant of the indices done so
  far runs to its end.\<close>

lemma forEach_distinct:
  assumes "I A s" and "distinct is" and "A \<inter> set is = {}"
    and "\<And>i B t. i \<in> set is \<Longrightarrow> i \<notin> B \<Longrightarrow> I B t \<Longrightarrow> \<exists>t'. f i t = Inr t' \<and> I (insert i B) t'"
  shows "\<exists>s'. forEach is f s = Inr s' \<and> I (A \<union> set is) s'"
  using assms
proof (induction "is" arbitrary: A s)
  case Nil
  then show ?case by simp
next
  case (Cons i "is")
  from Cons.prems have "i \<notin> A" by auto
  with Cons.prems(4) [of i A s] Cons.prems(1) obtain t where
    t: "f i s = Inr t" "I (insert i A) t" by auto
  have "\<exists>s'. forEach is f t = Inr s' \<and> I (insert i A \<union> set is) s'"
  proof (rule Cons.IH [OF t(2)])
    show "distinct is" using Cons.prems(2) by simp
    show "insert i A \<inter> set is = {}" using Cons.prems(2,3) by auto
    fix j B u assume "j \<in> set is" "j \<notin> B" "I B u"
    then show "\<exists>t'. f j u = Inr t' \<and> I (insert j B) t'"
      using Cons.prems(4) [of j B u] by auto
  qed
  with t(1) show ?case by simp
qed

lemma indices: "set (map int [0..<n]) = {i. 0 \<le> i \<and> i < int n}" "distinct (map int [0..<n])"
proof -
  show "set (map int [0..<n]) = {i. 0 \<le> i \<and> i < int n}"
  proof (intro set_eqI iffI)
    fix i assume "i \<in> set (map int [0..<n])"
    then show "i \<in> {i. 0 \<le> i \<and> i < int n}" by auto
  next
    fix i assume "i \<in> {i. 0 \<le> i \<and> i < int n}"
    then have "nat i \<in> set [0..<n]" "int (nat i) = i" by auto
    then show "i \<in> set (map int [0..<n])" by (metis image_eqI set_map)
  qed
  show "distinct (map int [0..<n])" by (simp add: distinct_map inj_on_def)
qed

lemma calcNumbers_row:
  assumes sq: "squareGrid g n" and d: "distinct (concat g)"
    and inv: "numbersDone h0 g (R \<times> set (map int [0..<n])) h"
    and r: "0 \<le> r" "r < int n" "r \<notin> R"
  shows "\<exists>h'. forEach (map int [0..<n]) (\<lambda>c. numberCell g n r c) h = Inr h' \<and>
           numbersDone h0 g (insert r R \<times> set (map int [0..<n])) h'"
proof -
  let ?cols = "map int [0..<n]"
  let ?I = "\<lambda>C t. numbersDone h0 g (R \<times> set ?cols \<union> {r} \<times> C) t"
  have "\<exists>h'. forEach ?cols (\<lambda>c. numberCell g n r c) h = Inr h' \<and> ?I ({} \<union> set ?cols) h'"
  proof (rule forEach_distinct [where I = ?I])
    show "?I {} h" using inv by simp
    show "distinct ?cols" by (rule indices(2))
    show "{} \<inter> set ?cols = {}" by simp
    fix c B t assume c: "c \<in> set ?cols" "c \<notin> B" and t: "?I B t"
    from c(1) have cr: "0 \<le> c" "c < int n" unfolding indices(1) by auto
    from c(2) r(3) have "(r, c) \<notin> R \<times> set ?cols \<union> {r} \<times> B" by auto
    from numberCell_square [OF sq d t r(1,2) cr this]
    obtain t' where t': "numberCell g n r c t = Inr t'"
      "numbersDone h0 g (insert (r, c) (R \<times> set ?cols \<union> {r} \<times> B)) t'" by blast
    have "insert (r, c) (R \<times> set ?cols \<union> {r} \<times> B) = R \<times> set ?cols \<union> {r} \<times> insert c B"
      by auto
    with t' show "\<exists>t'. numberCell g n r c t = Inr t' \<and> ?I (insert c B) t'" by auto
  qed
  moreover have "R \<times> set ?cols \<union> {r} \<times> ({} \<union> set ?cols) = insert r R \<times> set ?cols" by auto
  ultimately show ?thesis by simp
qed

lemma calcNumbers_spec:
  assumes sq: "squareGrid g n" and d: "distinct (concat g)"
  shows "\<exists>h'. calcNumbers h g n = Inr h' \<and>
           numbersDone h g ({i. 0 \<le> i \<and> i < int n} \<times> {i. 0 \<le> i \<and> i < int n}) h'"
proof -
  let ?ix = "map int [0..<n]"
  let ?I = "\<lambda>R t. numbersDone h g (R \<times> set ?ix) t"
  have "\<exists>h'. forEach ?ix (\<lambda>r. forEach ?ix (\<lambda>c. numberCell g n r c)) h = Inr h' \<and>
          ?I ({} \<union> set ?ix) h'"
  proof (rule forEach_distinct [where I = ?I])
    show "?I {} h" by (simp add: numbersDone_def)
    show "distinct ?ix" by (rule indices(2))
    show "{} \<inter> set ?ix = {}" by simp
    fix r B t assume r: "r \<in> set ?ix" "r \<notin> B" and t: "?I B t"
    from r(1) have rr: "0 \<le> r" "r < int n" unfolding indices(1) by auto
    from calcNumbers_row [OF sq d t rr r(2)]
    show "\<exists>t'. forEach ?ix (\<lambda>c. numberCell g n r c) t = Inr t' \<and> ?I (insert r B) t'" .
  qed
  then show ?thesis unfolding calcNumbers_def indices(1) by simp
qed

lemma mem_refAt:
  assumes "a \<in> set (concat g)"
  shows "\<exists>r c. refAt g r c = Some a"
proof -
  from assms obtain rw where rw: "rw \<in> set g" "a \<in> set rw" by auto
  then obtain i j where ij: "i < length g" "rw = g ! i" "j < length rw" "a = rw ! j"
    by (metis in_set_conv_nth)
  then have "inGrid g (int i) (int j)" by (simp add: inGrid_def)
  with ij have "refAt g (int i) (int j) = Some a" by (simp add: refAt_def)
  then show ?thesis by blast
qed

lemma minesIn_cong:
  assumes "\<And>r c. map_option isMine (cellAt h' g r c) = map_option isMine (cellAt h g r c)"
  shows "minesIn (snapshot h' g) = minesIn (snapshot h g)"
proof -
  have "isMine (cells h' a) = isMine (cells h a)" if "a \<in> set (concat g)" for a
  proof -
    from mem_refAt [OF that] obtain r c where "refAt g r c = Some a" by blast
    with assms [of r c] show ?thesis by (simp add: cellAt_def)
  qed
  then have "filter (\<lambda>a. isMine (cells h' a)) (concat g) = filter (\<lambda>a. isMine (cells h a)) (concat g)"
    by (intro filter_cong) auto
  then show ?thesis by (simp add: minesIn_snapshot)
qed

text \<open>What \<open>placeMines\<close> returns when it returns.\<close>

lemma placeMines_result:
  assumes sq: "squareGrid g n" and al: "allocated h g" and free: "minesIn (snapshot h g) = 0"
    and run: "placeMines h g k sr sc us = Some (Inr (h', g'))"
  shows "minesIn (snapshot h' g') = k \<and> safeZoneFree (cellAt h' g') sr sc \<and>
         numbersValid (cellAt h' g') \<and> squareGrid g' n"
proof -
  obtain h1 g1 where cp: "copyGrid h g = (h1, g1)" by fastforce
  have d: "distinct (concat g1)" by (rule copyGrid_fresh(1) [OF cp])
  have sq1: "squareGrid g1 n" by (rule squareGrid_lengths [OF sq copyGrid_fresh(3) [OF cp]])
  have len: "length g = n" using sq by (simp add: squareGrid_def)
  from run cp obtain h2 where
    pl: "placeLoop h1 g1 k 0 sr sc us = Some (Inr h2)"
    by (auto simp: placeMines_def split: option.splits sum.splits)
  from calcNumbers_spec [OF sq1 d, of h2] obtain h3 where
    cn: "calcNumbers h2 g1 n = Inr h3"
      and nd: "numbersDone h2 g1 ({i. 0 \<le> i \<and> i < int n} \<times> {i. 0 \<le> i \<and> i < int n}) h3"
    by blast
  from run cp pl cn len have res: "h' = h3" "g' = g1" by (simp_all add: placeMines_def)
  have free1: "minesIn (snapshot h1 g1) = 0" using copyGrid_snapshot [OF cp al] free by simp
  then have nomine: "\<not> isMine (cells h1 a)" if "a \<in> set (concat g1)" for a
    using that by (auto simp: minesIn_snapshot filter_empty_conv)
  have sf1: "safeZoneFree (cellAt h1 g1) sr sc"
    unfolding safeZoneFree_def cellAt_def using nomine refAt_mem by fastforce
  from placeLoop_spec [OF d pl free1 _ sf1] have
    p: "minesIn (snapshot h2 g1) = k" "safeZoneFree (cellAt h2 g1) sr sc" by simp_all
  have v3: "cellAt h3 g1 r c = map_option (numbered (cellAt h2 g1) r c) (cellAt h2 g1 r c)" for r c
  proof (cases "inGrid g1 r c")
    case True
    then have "(r, c) \<in> {i. 0 \<le> i \<and> i < int n} \<times> {i. 0 \<le> i \<and> i < int n}"
      using squareGrid_inGrid [OF sq1] by simp
    with nd show ?thesis by (simp add: numbersDone_def)
  next
    case False
    then show ?thesis by (simp add: cellAt_def refAt_def)
  qed
  have im: "map_option isMine (cellAt h3 g1 r c) = map_option isMine (cellAt h2 g1 r c)" for r c
    unfolding v3 by (cases "cellAt h2 g1 r c") (simp_all add: numbered_def)
  have 1: "minesIn (snapshot h3 g1) = k" using minesIn_cong [of h3 g1 h2] im p(1) by simp
  have 2: "safeZoneFree (cellAt h3 g1) sr sc"
    unfolding safeZoneFree_def
  proof (intro allI impI)
    fix r c cl assume a: "cellAt h3 g1 r c = Some cl \<and> safeZone sr sc r c"
    with v3 [of r c] obtain cl2 where cl2: "cellAt h2 g1 r c = Some cl2" "cl = numbered (cellAt h2 g1) r c cl2"
      by (cases "cellAt h2 g1 r c") auto
    with a p(2) have "\<not> isMine cl2" unfolding safeZoneFree_def by blast
    with cl2(2) show "\<not> isMine cl" by (simp add: numbered_def)
  qed
  have 3: "numbersValid (cellAt h3 g1)"
    unfolding numbersValid_def
  proof (intro allI impI)
    fix r c cl assume a: "cellAt h3 g1 r c = Some cl" "\<not> isMine cl"
    with v3 [of r c] obtain cl2 where cl2: "cellAt h2 g1 r c = Some cl2" "cl = numbered (cellAt h2 g1) r c cl2"
      by (cases "cellAt h2 g1 r c") auto
    with a(2) have "neighborMines cl = adjacentMines (cellAt h2 g1) r c"
      by (auto simp: numbered_def split: if_splits)
    then show "neighborMines cl = adjacentMines (cellAt h3 g1) r c"
      by (simp add: adjacentMines_def numbersDone_mineAt [OF nd])
  qed
  from 1 2 3 sq1 show ?thesis unfolding res by simp
qed

text \<open>
  C1. Whenever \<open>placeMines\<close> returns on a square grid without mines, for any count
  \<open>k\<close>, safe cell and stream of random numbers, the grid it returns has exactly \<open>k\<close>
  mines, none of them at Chebyshev distance at most 1 from the safe cell, and every cell
  that is no mine carries the number of mines among the cells of the grid next to it.
\<close>

theorem placeMines_correct:
  assumes "squareGrid g n" and "allocated h g"
    and "\<forall>cl \<in> set (concat (snapshot h g)). \<not> isMine cl"
    and "placeMines h g k sr sc us = Some (Inr (h', g'))"
  shows "length (filter isMine (concat (snapshot h' g'))) = k \<and>
         (\<forall>r c cl. cellAt h' g' r c = Some cl \<and> \<bar>r - sr\<bar> \<le> 1 \<and> \<bar>c - sc\<bar> \<le> 1 \<longrightarrow> \<not> isMine cl) \<and>
         (\<forall>r c cl. cellAt h' g' r c = Some cl \<and> \<not> isMine cl \<longrightarrow>
            neighborMines cl = length (filter (mineAt (cellAt h' g')) (neighbours r c)))"
proof -
  from assms(3) have "minesIn (snapshot h g) = 0"
    by (simp add: minesIn_def filter_empty_conv del: set_concat)
  from placeMines_result [OF assms(1,2) this assms(4)] have
    r: "minesIn (snapshot h' g') = k" "safeZoneFree (cellAt h' g') sr sc"
       "numbersValid (cellAt h' g')" by simp_all
  from r(1) have 1: "length (filter isMine (concat (snapshot h' g'))) = k"
    by (simp add: minesIn_def)
  from r(2) have 2: "\<forall>r c cl. cellAt h' g' r c = Some cl \<and> \<bar>r - sr\<bar> \<le> 1 \<and> \<bar>c - sc\<bar> \<le> 1 \<longrightarrow> \<not> isMine cl"
    unfolding safeZoneFree_def safeZone_def by blast
  from r(3) have 3: "\<forall>r c cl. cellAt h' g' r c = Some cl \<and> \<not> isMine cl \<longrightarrow>
            neighborMines cl = length (filter (mineAt (cellAt h' g')) (neighbours r c))"
    unfolding numbersValid_def adjacentMines_def by blast
  from 1 2 3 show ?thesis by blast
qed

lemma placeMines_returns:
  assumes sq: "squareGrid g n" and cp: "copyGrid h g = (h1, g1)"
    and pl: "placeLoop h1 g1 k 0 sr sc us = Some (Inr h2)"
  shows "\<exists>h3. placeMines h g k sr sc us = Some (Inr (h3, g1))"
proof -
  have d: "distinct (concat g1)" by (rule copyGrid_fresh(1) [OF cp])
  have sq1: "squareGrid g1 n" by (rule squareGrid_lengths [OF sq copyGrid_fresh(3) [OF cp]])
  have len: "length g = n" using sq by (simp add: squareGrid_def)
  from calcNumbers_spec [OF sq1 d, of h2] obtain h3 where "calcNumbers h2 g1 n = Inr h3" by blast
  with cp pl len show ?thesis by (simp add: placeMines_def)
qed

subsection \<open>The grid a level starts with\<close>

definition blank :: "int \<Rightarrow> int \<Rightarrow> Cell" where
  "blank r c = \<lparr>row = r, col = c, isMine = False, status = HIDDEN, neighborMines = 0\<rparr>"

lemma emptyRow_spec:
  "emptyRow h r c k = (h', as) \<Longrightarrow>
     nxt h' = nxt h + k \<and> as = [nxt h ..< nxt h + k] \<and>
     (\<forall>a < nxt h. cells h' a = cells h a) \<and>
     (\<forall>i < k. cells h' (nxt h + i) = blank r (int (c + i)))"
proof (induction k arbitrary: h c h' as)
  case 0
  then show ?case by simp
next
  case (Suc k)
  let ?h1 = "fst (alloc h (blank r (int c)))"
  obtain h2 as2 where er: "emptyRow ?h1 r (Suc c) k = (h2, as2)" by fastforce
  have h1: "nxt ?h1 = Suc (nxt h)" "cells ?h1 = (cells h)(nxt h := blank r (int c))"
    by (simp_all add: alloc_def)
  from Suc.prems er have res: "h' = h2" "as = nxt h # as2"
    by (simp_all add: alloc_def blank_def split: prod.splits)
  from Suc.IH [OF er] have
    i1: "nxt h2 = nxt ?h1 + k" and i2: "as2 = [nxt ?h1 ..< nxt ?h1 + k]" and
    i3: "\<forall>a < nxt ?h1. cells h2 a = cells ?h1 a" and
    i4: "\<forall>i < k. cells h2 (nxt ?h1 + i) = blank r (int (Suc c + i))"
    by blast+
  have 1: "nxt h' = nxt h + Suc k" using i1 h1 res by simp
  have 2: "as = [nxt h ..< nxt h + Suc k]"
    using i2 h1 res upt_conv_Cons [of "nxt h" "nxt h + Suc k"] by simp
  have 3: "\<forall>a < nxt h. cells h' a = cells h a" using i3 h1 res by simp
  have 4: "\<forall>i < Suc k. cells h' (nxt h + i) = blank r (int (c + i))"
  proof (intro allI impI)
    fix i assume i: "i < Suc k"
    show "cells h' (nxt h + i) = blank r (int (c + i))"
    proof (cases i)
      case 0
      with i3 h1 res show ?thesis by simp
    next
      case (Suc j)
      with i i4 have "cells h2 (nxt ?h1 + j) = blank r (int (Suc c + j))" by simp
      with Suc h1 res show ?thesis by simp
    qed
  qed
  show ?case by (intro conjI 1 2 3 4)
qed

lemma emptyRows_spec:
  "emptyRows h sz r k = (h', g) \<Longrightarrow>
     length g = k \<and> (\<forall>rw \<in> set g. length rw = sz) \<and> nxt h \<le> nxt h' \<and>
     concat g = [nxt h ..< nxt h'] \<and> (\<forall>a < nxt h. cells h' a = cells h a) \<and>
     (\<forall>i < k. \<forall>j < sz. cells h' (g ! i ! j) = blank (int (r + i)) (int j))"
proof (induction k arbitrary: h r h' g)
  case 0
  then show ?case by simp
next
  case (Suc k)
  obtain h1 rw where er: "emptyRow h (int r) 0 sz = (h1, rw)" by fastforce
  obtain h2 rws where es: "emptyRows h1 sz (Suc r) k = (h2, rws)" by fastforce
  from Suc.prems er es have res: "h' = h2" "g = rw # rws" by simp_all
  from emptyRow_spec [OF er] have
    r1: "nxt h1 = nxt h + sz" and r2: "rw = [nxt h ..< nxt h + sz]" and
    r3: "\<forall>a < nxt h. cells h1 a = cells h a" and
    r4: "\<forall>i < sz. cells h1 (nxt h + i) = blank (int r) (int (0 + i))"
    by blast+
  from Suc.IH [OF es] have
    i1: "length rws = k" and i2: "\<forall>rw \<in> set rws. length rw = sz" and i3: "nxt h1 \<le> nxt h2" and
    i4: "concat rws = [nxt h1 ..< nxt h2]" and i5: "\<forall>a < nxt h1. cells h2 a = cells h1 a" and
    i6: "\<forall>i < k. \<forall>j < sz. cells h2 (rws ! i ! j) = blank (int (Suc r + i)) (int j)"
    by blast+
  have 1: "length g = Suc k" using i1 res by simp
  have 2: "\<forall>rw \<in> set g. length rw = sz" using i2 r2 res by simp
  have 3: "nxt h \<le> nxt h'" using r1 i3 res by simp
  have 4: "concat g = [nxt h ..< nxt h']"
  proof -
    have "concat g = [nxt h ..< nxt h1] @ [nxt h1 ..< nxt h2]" using r1 r2 i4 res by simp
    moreover have "nxt h \<le> nxt h1" using r1 by simp
    ultimately show ?thesis using res i3 by (metis le_Suc_ex upt_add_eq_append)
  qed
  have 5: "\<forall>a < nxt h. cells h' a = cells h a" using r1 r3 i5 res by simp
  have 6: "\<forall>i < Suc k. \<forall>j < sz. cells h' (g ! i ! j) = blank (int (r + i)) (int j)"
  proof (intro allI impI)
    fix i j assume i: "i < Suc k" and j: "j < sz"
    show "cells h' (g ! i ! j) = blank (int (r + i)) (int j)"
    proof (cases i)
      case 0
      from j r2 have "rw ! j = nxt h + j" by simp
      moreover from j r1 have "nxt h + j < nxt h1" by simp
      ultimately show ?thesis using 0 res i5 r4 j by simp
    next
      case (Suc i')
      with i i6 j have "cells h2 (rws ! i' ! j) = blank (int (Suc r + i')) (int j)" by simp
      with Suc res show ?thesis by simp
    qed
  qed
  show ?case by (intro conjI 1 2 3 4 5 6)
qed

text \<open>
  \<open>createEmptyGrid\<close> of any size gives a square grid of new cells, all Hidden, without
  mines and with the number 0: the grid \<open>placeMines\<close> is called on.
\<close>

lemma createEmptyGrid_spec:
  assumes "createEmptyGrid h sz = (h', g)"
  shows "squareGrid g sz" and "allocated h' g" and "distinct (concat g)"
    and "\<forall>cl \<in> set (concat (snapshot h' g)). \<not> isMine cl \<and> status cl = HIDDEN \<and> neighborMines cl = 0"
proof -
  from emptyRows_spec [OF assms [unfolded createEmptyGrid_def]] have
    s: "length g = sz" "\<forall>rw \<in> set g. length rw = sz" "concat g = [nxt h ..< nxt h']"
       "\<forall>i < sz. \<forall>j < sz. cells h' (g ! i ! j) = blank (int (0 + i)) (int j)"
    by blast+
  show sq: "squareGrid g sz" using s(1,2) by (simp add: squareGrid_def)
  show "allocated h' g" unfolding allocated_def s(3) by simp
  show "distinct (concat g)" unfolding s(3) by simp
  have "\<forall>i < sz. \<forall>j < sz. \<not> isMine (cells h' (g ! i ! j)) \<and> status (cells h' (g ! i ! j)) = HIDDEN \<and>
      neighborMines (cells h' (g ! i ! j)) = 0"
    using s(4) by (simp add: blank_def)
  then have "\<forall>a \<in> set (concat g). \<not> isMine (cells h' a) \<and> status (cells h' a) = HIDDEN \<and>
      neighborMines (cells h' a) = 0"
    unfolding all_cells_iff [OF sq, of "\<lambda>a. \<not> isMine (cells h' a) \<and> status (cells h' a) = HIDDEN \<and>
      neighborMines (cells h' a) = 0"] .
  then show "\<forall>cl \<in> set (concat (snapshot h' g)). \<not> isMine cl \<and> status cl = HIDDEN \<and> neighborMines cl = 0"
    unfolding set_concat_snapshot by simp
qed

text \<open>A first move on a new 3 by 3 grid: two mines asked for, the corner (0,0) safe.\<close>

definition emptyHeap :: heap where
  "emptyHeap = \<lparr>cells = (\<lambda>a. blank 0 0), nxt = 0\<rparr>"

lemma create3: "\<exists>h0. createEmptyGrid emptyHeap 3 = (h0, demoGrid) \<and> nxt h0 = 9"
  by (simp add: createEmptyGrid_def eval_nat_numeral alloc_def emptyHeap_def demoGrid_def)

lemma fresh_run:
  "\<exists>h0 h3. createEmptyGrid emptyHeap 3 = (h0, demoGrid) \<and>
      placeMines h0 demoGrid 2 0 0 [0.9, 0.9, 0.1, 0.1, 0.9, 0.9, 0.1, 0.9] =
        Some (Inr (h3, [[9, 10, 11], [12, 13, 14], [15, 16, 17]]))"
proof -
  let ?us = "[0.9, 0.9, 0.1, 0.1, 0.9, 0.9, 0.1, 0.9] :: real list"
  let ?g1 = "[[9, 10, 11], [12, 13, 14], [15, 16, 17]] :: grid"
  from create3 obtain h0 where c: "createEmptyGrid emptyHeap 3 = (h0, demoGrid)" "nxt h0 = 9"
    by blast
  have "\<exists>h1. copyGrid h0 demoGrid = (h1, ?g1)"
    using c(2) by (simp add: demoGrid_def alloc_def)
  then obtain h1 where cp: "copyGrid h0 demoGrid = (h1, ?g1)" by blast
  from copyGrid_snapshot [OF cp createEmptyGrid_spec(2) [OF c(1)]]
  have "set (concat (snapshot h1 ?g1)) = set (concat (snapshot h0 demoGrid))" by simp
  with createEmptyGrid_spec(4) [OF c(1)]
  have "\<forall>cl \<in> set (concat (snapshot h1 ?g1)). \<not> isMine cl" by blast
  then have nm: "\<not> isMine (cells h1 9)" "\<not> isMine (cells h1 11)" "\<not> isMine (cells h1 17)"
    by (simp_all add: snapshot_def)
  have "\<exists>h2. placeLoop h1 ?g1 2 0 0 0 ?us = Some (Inr h2)"
    using nm by (simp add: randIndex_def refAt_def inGrid_def setIsMine_def numeral_2_eq_2)
  then obtain h2 where pl: "placeLoop h1 ?g1 2 0 0 0 ?us = Some (Inr h2)" by blast
  from placeMines_returns [OF demo_square cp pl] c(1) show ?thesis by blast
qed

theorem placeMines_correct_witness:
  "\<exists>h0 h' g'. createEmptyGrid emptyHeap 3 = (h0, demoGrid) \<and>
      placeMines h0 demoGrid 2 0 0 [0.9, 0.9, 0.1, 0.1, 0.9, 0.9, 0.1, 0.9] = Some (Inr (h', g')) \<and>
      length (filter isMine (concat (snapshot h' g'))) = 2 \<and>
      map_option isMine (cellAt h' g' 0 0) = Some False \<and>
      map_option isMine (cellAt h' g' 1 1) = Some False"
proof -
  let ?us = "[0.9, 0.9, 0.1, 0.1, 0.9, 0.9, 0.1, 0.9] :: real list"
  let ?g1 = "[[9, 10, 11], [12, 13, 14], [15, 16, 17]] :: grid"
  from fresh_run obtain h0 h3 where
    c: "createEmptyGrid emptyHeap 3 = (h0, demoGrid)"
    and run: "placeMines h0 demoGrid 2 0 0 ?us = Some (Inr (h3, ?g1))" by blast
  from createEmptyGrid_spec(4) [OF c]
  have free: "\<forall>cl \<in> set (concat (snapshot h0 demoGrid)). \<not> isMine cl" by blast
  from placeMines_correct [OF createEmptyGrid_spec(1,2) [OF c] free run] have
    1: "length (filter isMine (concat (snapshot h3 ?g1))) = 2"
    and 2: "\<forall>r c cl. cellAt h3 ?g1 r c = Some cl \<and> \<bar>r - 0\<bar> \<le> 1 \<and> \<bar>c - 0\<bar> \<le> 1 \<longrightarrow> \<not> isMine cl"
    by blast+
  have v: "cellAt h3 ?g1 0 0 = Some (cells h3 9)" "cellAt h3 ?g1 1 1 = Some (cells h3 13)"
    by (simp_all add: cellAt_def refAt_def inGrid_def)
  from 2 [rule_format, of 0 0 "cells h3 9"] v(1) have "\<not> isMine (cells h3 9)" by simp
  moreover from 2 [rule_format, of 1 1 "cells h3 13"] v(2) have "\<not> isMine (cells h3 13)" by simp
  ultimately have "map_option isMine (cellAt h3 ?g1 0 0) = Some False"
    "map_option isMine (cellAt h3 ?g1 1 1) = Some False" using v by simp_all
  with c run 1 show ?thesis by blast
qed

section \<open>The operations leave their argument alone\<close>

definition sameOutside :: "addr set \<Rightarrow> heap \<Rightarrow> heap \<Rightarrow> bool" where
  "sameOutside A h h' \<longleftrightarrow> (\<forall>a. a \<notin> A \<longrightarrow> cells h' a = cells h a)"

lemma sameOutside_refl: "sameOutside A h h"
  by (simp add: sameOutside_def)

lemma sameOutside_trans: "sameOutside A h h1 \<Longrightarrow> sameOutside A h1 h2 \<Longrightarrow> sameOutside A h h2"
  by (simp add: sameOutside_def)

lemma sameOutside_updCell: "a \<in> A \<Longrightarrow> sameOutside A h (updCell h a v)"
  by (auto simp: sameOutside_def updCell_def)

lemma flood_outside:
  "flood h g stack = Inr h' \<Longrightarrow> sameOutside (set (concat g)) h h'"
proof (induction h g stack rule: flood.induct)
  case (1 h g)
  then show ?case by (simp add: flood.simps sameOutside_refl)
next
  case (2 h g r c stack)
  show ?case
  proof (cases "r < 0 \<or> r \<ge> int (length g) \<or> c < 0 \<or> c \<ge> int (length g)")
    case True
    with "2.prems" "2.IH"(1) show ?thesis by (simp add: flood.simps)
  next
    case False
    with "2.prems" obtain a where a: "refAt g r c = Some a"
      by (cases "refAt g r c") (auto simp: flood.simps)
    have step: "sameOutside (set (concat g)) h (setStatus h a REVEALED)"
      unfolding setStatus_updCell by (rule sameOutside_updCell [OF refAt_mem [OF a]])
    show ?thesis
    proof (cases "status (cells h a) \<noteq> HIDDEN")
      case True
      with False a "2.prems" "2.IH"(2) show ?thesis by (simp add: flood.simps)
    next
      case hid: False
      show ?thesis
      proof (cases "neighborMines (cells (setStatus h a REVEALED) a) = 0")
        case True
        with False a hid "2.prems"
        have "flood (setStatus h a REVEALED) g (rev (pushes r c) @ stack) = Inr h'"
          by (simp add: flood.simps)
        from "2.IH"(3) [OF False a hid True this] step show ?thesis
          by (rule sameOutside_trans [rotated])
      next
        case nz: False
        with False a hid "2.prems"
        have "flood (setStatus h a REVEALED) g stack = Inr h'"
          by (simp add: flood.simps)
        from "2.IH"(4) [OF False a hid nz this] step show ?thesis
          by (rule sameOutside_trans [rotated])
      qed
    qed
  qed
qed

lemma placeLoop_outside:
  "placeLoop h g k m sr sc us = Some (Inr h') \<Longrightarrow> sameOutside (set (concat g)) h h'"
proof (induction h g k m sr sc us rule: placeLoop.induct)
  case (1 h g k m sr sc)
  then show ?case by (auto simp: sameOutside_refl split: if_splits)
next
  case (2 h g k m sr sc u)
  then show ?case by (auto simp: sameOutside_refl split: if_splits)
next
  case (3 h g k m sr sc u1 u2 us)
  show ?case
  proof (cases "m < k")
    case False
    with "3.prems" show ?thesis by (simp add: sameOutside_refl)
  next
    case True
    let ?r = "randIndex u1 (length g)" and ?c = "randIndex u2 (length g)"
    from "3.prems" True obtain a where a: "refAt g ?r ?c = Some a"
      by (cases "refAt g ?r ?c") (auto simp: Let_def)
    show ?thesis
    proof (cases "\<not> isMine (cells h a) \<and> \<not> (\<bar>?r - sr\<bar> \<le> 1 \<and> \<bar>?c - sc\<bar> \<le> 1)")
      case place: True
      from "3.prems" True a place
      have "placeLoop (setIsMine h a True) g k (Suc m) sr sc us = Some (Inr h')"
        by (simp add: Let_def)
      from "3.IH"(1) [OF True refl refl refl a place this]
      have "sameOutside (set (concat g)) (setIsMine h a True) h'" .
      moreover have "sameOutside (set (concat g)) h (setIsMine h a True)"
        unfolding setIsMine_updCell by (rule sameOutside_updCell [OF refAt_mem [OF a]])
      ultimately show ?thesis by (rule sameOutside_trans [rotated])
    next
      case skip: False
      from "3.prems" True a skip have "placeLoop h g k m sr sc us = Some (Inr h')"
        by (auto simp: Let_def)
      from "3.IH"(2) [OF True refl refl refl a skip this] show ?thesis .
    qed
  qed
qed

lemma forEach_outside:
  assumes "\<And>i s s'. f i s = Inr s' \<Longrightarrow> sameOutside A s s'"
  shows "forEach is f s = Inr s' \<Longrightarrow> sameOutside A s s'"
proof (induction "is" arbitrary: s)
  case Nil
  then show ?case by (simp add: sameOutside_refl)
next
  case (Cons i "is")
  then obtain t where t: "f i s = Inr t" "forEach is f t = Inr s'"
    by (cases "f i s") auto
  from assms [OF t(1)] Cons.IH [OF t(2)] show ?case by (rule sameOutside_trans)
qed

lemma numberCell_outside:
  "numberCell g n r c h = Inr h' \<Longrightarrow> sameOutside (set (concat g)) h h'"
proof -
  assume run: "numberCell g n r c h = Inr h'"
  then obtain a where a: "refAt g r c = Some a"
    by (cases "refAt g r c") (auto simp: numberCell_def)
  show ?thesis
  proof (cases "isMine (cells h a)")
    case True
    with run a show ?thesis by (simp add: numberCell_def sameOutside_refl)
  next
    case False
    with run a obtain k where "h' = setNeighborMines h a k"
      by (cases "countAround h g n r c") (auto simp: numberCell_def)
    then show ?thesis
      unfolding setNeighborMines_updCell using sameOutside_updCell [OF refAt_mem [OF a]] by simp
  qed
qed

lemma calcNumbers_outside:
  "calcNumbers h g n = Inr h' \<Longrightarrow> sameOutside (set (concat g)) h h'"
  unfolding calcNumbers_def
  by (erule forEach_outside [rotated]) (erule forEach_outside [rotated], erule numberCell_outside)

text \<open>
  After the copy, a call writes only to cells of the copy: every object that was there
  before the call is as it was, and the grid returned is made of new objects only.
\<close>

definition untouched :: "heap \<Rightarrow> heap \<Rightarrow> bool" where
  "untouched h h' \<longleftrightarrow> (\<forall>a < nxt h. cells h' a = cells h a)"

definition freshGrid :: "heap \<Rightarrow> grid \<Rightarrow> bool" where
  "freshGrid h g' \<longleftrightarrow> (\<forall>a \<in> set (concat g'). nxt h \<le> a)"

lemma untouched_snapshot: "untouched h h' \<Longrightarrow> allocated h g \<Longrightarrow> snapshot h' g = snapshot h g"
  unfolding untouched_def allocated_def snapshot_def by auto

lemma pure_after_copy:
  assumes cp: "copyGrid h g = (h1, g1)" and out: "sameOutside (set (concat g1)) h1 h'"
  shows "untouched h h' \<and> freshGrid h g1"
proof -
  have fr: "\<forall>a \<in> set (concat g1). nxt h \<le> a" using copyGrid_fresh(2) [OF cp] by blast
  have "cells h' a = cells h a" if "a < nxt h" for a
  proof -
    from that fr have "a \<notin> set (concat g1)" by (meson not_less)
    with out have "cells h' a = cells h1 a" by (simp add: sameOutside_def)
    with copyGrid_fresh(4) [OF cp] that show ?thesis by simp
  qed
  with fr show ?thesis by (simp add: untouched_def freshGrid_def)
qed

lemma toggleFlag_pure:
  assumes "toggleFlag h g r c = Inr (h', g')"
  shows "untouched h h' \<and> freshGrid h g'"
proof -
  obtain h1 g1 where cp: "copyGrid h g = (h1, g1)" by fastforce
  with assms obtain a where a: "refAt g1 r c = Some a"
    by (cases "refAt g1 r c") (auto simp: toggleFlag_def)
  have "sameOutside (set (concat g1)) h1 (setStatus h1 a s)" for s
    unfolding setStatus_updCell by (rule sameOutside_updCell [OF refAt_mem [OF a]])
  with assms cp a have "g' = g1 \<and> sameOutside (set (concat g1)) h1 h'"
    by (auto simp: toggleFlag_def sameOutside_refl split: if_splits)
  with pure_after_copy [OF cp] show ?thesis by blast
qed

lemma revealCell_pure:
  assumes "revealCell h g r c = Inr (h', g', e)"
  shows "untouched h h' \<and> freshGrid h g'"
proof -
  obtain h1 g1 where cp: "copyGrid h g = (h1, g1)" by fastforce
  with assms obtain a where a: "refAt g1 r c = Some a"
    by (cases "refAt g1 r c") (auto simp: revealCell_def)
  have w: "sameOutside (set (concat g1)) h1 (setStatus h1 a s)" for s
    unfolding setStatus_updCell by (rule sameOutside_updCell [OF refAt_mem [OF a]])
  have "g' = g1 \<and> sameOutside (set (concat g1)) h1 h'"
  proof (cases "status (cells h1 a) \<noteq> HIDDEN \<or> isMine (cells h1 a)")
    case True
    with assms cp a w show ?thesis
      by (auto simp: revealCell_def sameOutside_refl split: if_splits)
  next
    case False
    with assms cp a have "flood h1 g1 [(r, c)] = Inr h'" "g' = g1"
      by (auto simp: revealCell_def split: sum.splits)
    with flood_outside show ?thesis by blast
  qed
  with pure_after_copy [OF cp] show ?thesis by blast
qed

lemma placeMines_pure:
  assumes "placeMines h g k sr sc us = Some (Inr (h', g'))"
  shows "untouched h h' \<and> freshGrid h g'"
proof -
  obtain h1 g1 where cp: "copyGrid h g = (h1, g1)" by fastforce
  from assms cp obtain h2 where
    pl: "placeLoop h1 g1 k 0 sr sc us = Some (Inr h2)"
    and cn: "calcNumbers h2 g1 (length g) = Inr h'" and g': "g' = g1"
    by (auto simp: placeMines_def split: option.splits sum.splits)
  from placeLoop_outside [OF pl] calcNumbers_outside [OF cn]
  have "sameOutside (set (concat g1)) h1 h'" by (rule sameOutside_trans)
  with pure_after_copy [OF cp] g' show ?thesis by blast
qed

text \<open>
  C10. Whatever the grid and the arguments, when \<open>placeMines\<close>, \<open>revealCell\<close> or
  \<open>toggleFlag\<close> returns, every cell object that existed before the call has the fields
  it had, the grid returned consists of objects made during the call, and so the argument
  grid reads as it did before.
\<close>

theorem grid_operations_pure:
  "(placeMines h g k sr sc us = Some (Inr (h', g')) \<longrightarrow>
      (\<forall>a < nxt h. cells h' a = cells h a) \<and> (\<forall>a \<in> set (concat g'). nxt h \<le> a) \<and>
      (allocated h g \<longrightarrow> snapshot h' g = snapshot h g)) \<and>
   (revealCell h g r c = Inr (h', g', e) \<longrightarrow>
      (\<forall>a < nxt h. cells h' a = cells h a) \<and> (\<forall>a \<in> set (concat g'). nxt h \<le> a) \<and>
      (allocated h g \<longrightarrow> snapshot h' g = snapshot h g)) \<and>
   (toggleFlag h g r c = Inr (h', g') \<longrightarrow>
      (\<forall>a < nxt h. cells h' a = cells h a) \<and> (\<forall>a \<in> set (concat g'). nxt h \<le> a) \<and>
      (allocated h g \<longrightarrow> snapshot h' g = snapshot h g))"
proof -
  have *: "(\<forall>a < nxt h. cells h' a = cells h a) \<and> (\<forall>a \<in> set (concat g'). nxt h \<le> a) \<and>
      (allocated h g \<longrightarrow> snapshot h' g = snapshot h g)"
    if "untouched h h' \<and> freshGrid h g'"
    using that untouched_snapshot [of h h' g] by (simp add: untouched_def freshGrid_def)
  show ?thesis
    using * placeMines_pure [of h g k sr sc us h' g'] revealCell_pure [of h g r c h' g' e]
      toggleFlag_pure [of h g r c h' g']
    by blast
qed

lemma copy_demo:
  "\<exists>h1. copyGrid demoHeap demoGrid = (h1, [[9, 10, 11], [12, 13, 14], [15, 16, 17]]) \<and>
      cells h1 9 = demoCell 0 \<and> cells h1 11 = demoCell 2"
  by (simp add: demoGrid_def demoHeap_def alloc_def)

theorem grid_operations_pure_witness:
  "\<exists>h0 h1 g1 h2 g2 h3 g3. createEmptyGrid emptyHeap 3 = (h0, demoGrid) \<and>
     placeMines h0 demoGrid 2 0 0 [0.9, 0.9, 0.1, 0.1, 0.9, 0.9, 0.1, 0.9] = Some (Inr (h1, g1)) \<and>
     snapshot h1 demoGrid = snapshot h0 demoGrid \<and>
     revealCell demoHeap demoGrid 0 2 = Inr (h2, g2, False) \<and>
     snapshot h2 demoGrid = snapshot demoHeap demoGrid \<and>
     toggleFlag demoHeap demoGrid 0 0 = Inr (h3, g3) \<and>
     snapshot h3 demoGrid = snapshot demoHeap demoGrid \<and>
     map_option status (cellAt h3 g3 0 0) = Some FLAGGED"
proof -
  let ?us = "[0.9, 0.9, 0.1, 0.1, 0.9, 0.9, 0.1, 0.9] :: real list"
  let ?g1 = "[[9, 10, 11], [12, 13, 14], [15, 16, 17]] :: grid"
  from fresh_run obtain h0 h1 where
    c: "createEmptyGrid emptyHeap 3 = (h0, demoGrid)"
    and p: "placeMines h0 demoGrid 2 0 0 ?us = Some (Inr (h1, ?g1))" by blast
  from copy_demo obtain h' where
    cp: "copyGrid demoHeap demoGrid = (h', ?g1)" "cells h' 9 = demoCell 0" "cells h' 11 = demoCell 2"
    by blast
  have r: "revealCell demoHeap demoGrid 0 2 = Inr (h', ?g1, False)"
    using cp by (simp add: revealCell_def refAt_def inGrid_def demoCell_def)
  have t: "toggleFlag demoHeap demoGrid 0 0 = Inr (setStatus h' 9 FLAGGED, ?g1)"
    using cp by (simp add: toggleFlag_def refAt_def inGrid_def demoCell_def)
  have s: "map_option status (cellAt (setStatus h' 9 FLAGGED) ?g1 0 0) = Some FLAGGED"
    by (simp add: cellAt_def refAt_def inGrid_def setStatus_def)
  from grid_operations_pure [of h0 demoGrid 2 0 0 ?us h1 ?g1 0 0 False] p
    createEmptyGrid_spec(2) [OF c]
  have 1: "snapshot h1 demoGrid = snapshot h0 demoGrid" by blast
  from grid_operations_pure [of demoHeap demoGrid 0 0 0 "[]" h' ?g1 0 2 False] r demo_allocated
  have 2: "snapshot h' demoGrid = snapshot demoHeap demoGrid" by blast
  from grid_operations_pure [of demoHeap demoGrid 0 0 0 "[]" "setStatus h' 9 FLAGGED" ?g1 0 0 False]
    t demo_allocated
  have 3: "snapshot (setStatus h' 9 FLAGGED) demoGrid = snapshot demoHeap demoGrid" by blast
  from c p r t s 1 2 3 show ?thesis by blast
qed

section \<open>One flight of a projectile\<close>

text \<open>The six assignments at the head of the animation step.\<close>

definition moveStep :: "Projectile \<Rightarrow> Projectile" where
  "moveStep p =
     p\<lparr>position := (fst (position p) + fst (velocity p), snd (position p) + snd (velocity p)),
       pz := pz p + pvz p,
       pvz := pvz p - GRAVITY_Z,
       velocity := (fst (velocity p) * AIR_DRAG, snd (velocity p) * AIR_DRAG)\<rparr>"

definition outOfBounds :: "real \<Rightarrow> Projectile \<Rightarrow> bool" where
  "outOfBounds width p \<longleftrightarrow>
     snd (position p) < -100 \<or> fst (position p) < -100 \<or> fst (position p) > width + 100"

text \<open>The sum \<open>1 + d + ... + d^(n-1)\<close> of the drag factors of the first \<open>n\<close> frames.\<close>

definition geo :: "nat \<Rightarrow> real" where
  "geo n = (\<Sum>i<n. AIR_DRAG ^ i)"

lemma animate_moveStep:
  "animate width p = (if active p then boundsStep width (landStep (moveStep p, [])) else (p, []))"
  by (simp add: animate_def moveStep_def)

lemma animate_airborne:
  assumes "active p" "0 < pz (moveStep p)" "\<not> outOfBounds width (moveStep p)"
  shows "animate width p = (moveStep p, [])"
  using assms by (auto simp: animate_moveStep landStep_def boundsStep_def outOfBounds_def)

lemma animate_both:
  assumes "active p" "pz (moveStep p) \<le> 0" "outOfBounds width (moveStep p)"
  shows "snd (animate width p) =
           [(position (moveStep p), ptype p), (position (moveStep p), ptype p)] \<and>
         \<not> active (fst (animate width p))"
  using assms by (auto simp: animate_moveStep landStep_def boundsStep_def outOfBounds_def moveStep_def)

lemma frames_inactive: "\<not> active p \<Longrightarrow> frames k width p = []"
  by (induction k) (simp_all add: animate_def)

lemma moveStep_active: "active ((moveStep ^^ n) p) = active p"
  by (induction n) (simp_all add: moveStep_def)

lemma frames_airborne:
  assumes "active p"
    and "\<And>m. 1 \<le> m \<Longrightarrow> m \<le> n \<Longrightarrow>
           0 < pz ((moveStep ^^ m) p) \<and> \<not> outOfBounds width ((moveStep ^^ m) p)"
  shows "frames (n + k) width p = frames k width ((moveStep ^^ n) p)"
  using assms
proof (induction n arbitrary: p)
  case 0
  then show ?case by simp
next
  case (Suc n)
  from Suc.prems(2) [of 1] have "0 < pz (moveStep p)" "\<not> outOfBounds width (moveStep p)" by simp_all
  with Suc.prems(1) have a: "animate width p = (moveStep p, [])" by (rule animate_airborne)
  have "frames (n + k) width (moveStep p) = frames k width ((moveStep ^^ n) (moveStep p))"
  proof (rule Suc.IH)
    show "active (moveStep p)" using Suc.prems(1) by (simp add: moveStep_def)
    fix m assume "1 \<le> m" "m \<le> n"
    with Suc.prems(2) [of "Suc m"] show
      "0 < pz ((moveStep ^^ m) (moveStep p)) \<and> \<not> outOfBounds width ((moveStep ^^ m) (moveStep p))"
      by (simp add: funpow_swap1)
  qed
  with a show ?case by (simp add: funpow_swap1)
qed

lemma geo_Suc: "geo (Suc n) = geo n + AIR_DRAG ^ n"
  by (simp add: geo_def)

lemma geo_closed: "geo n = 200 * (1 - AIR_DRAG ^ n)"
  by (induction n) (simp_all add: geo_def AIR_DRAG_def algebra_simps)

lemma geo_mono: "m \<le> n \<Longrightarrow> geo m \<le> geo n"
proof -
  assume "m \<le> n"
  then have "AIR_DRAG ^ n \<le> AIR_DRAG ^ m"
    by (intro power_decreasing) (simp_all add: AIR_DRAG_def)
  then show ?thesis by (simp add: geo_closed)
qed

lemma geo_nonneg: "0 \<le> geo n"
  by (simp add: geo_def AIR_DRAG_def sum_nonneg)

text \<open>The projectile after \<open>n\<close> frames in the air.\<close>

lemma moveStep_funpow:
  "velocity ((moveStep ^^ n) p) = (fst (velocity p) * AIR_DRAG ^ n, snd (velocity p) * AIR_DRAG ^ n) \<and>
   pvz ((moveStep ^^ n) p) = pvz p - GRAVITY_Z * real n \<and>
   position ((moveStep ^^ n) p) =
     (fst (position p) + fst (velocity p) * geo n, snd (position p) + snd (velocity p) * geo n) \<and>
   pz ((moveStep ^^ n) p) = pz p + real n * pvz p - GRAVITY_Z * (real n * (real n - 1) / 2) \<and>
   ptype ((moveStep ^^ n) p) = ptype p"
proof (induction n)
  case 0
  show ?case by (simp add: geo_def)
next
  case (Suc n)
  let ?q = "(moveStep ^^ n) p"
  from Suc have
    v: "velocity ?q = (fst (velocity p) * AIR_DRAG ^ n, snd (velocity p) * AIR_DRAG ^ n)" and
    w: "pvz ?q = pvz p - GRAVITY_Z * real n" and
    x: "position ?q =
      (fst (position p) + fst (velocity p) * geo n, snd (position p) + snd (velocity p) * geo n)" and
    z: "pz ?q = pz p + real n * pvz p - GRAVITY_Z * (real n * (real n - 1) / 2)" and
    t: "ptype ?q = ptype p"
    by blast+
  have 1: "velocity (moveStep ?q) =
      (fst (velocity p) * AIR_DRAG ^ Suc n, snd (velocity p) * AIR_DRAG ^ Suc n)"
    by (simp add: moveStep_def v)
  have 2: "pvz (moveStep ?q) = pvz p - GRAVITY_Z * real (Suc n)"
    by (simp add: moveStep_def w algebra_simps)
  have 3: "position (moveStep ?q) =
      (fst (position p) + fst (velocity p) * geo (Suc n),
       snd (position p) + snd (velocity p) * geo (Suc n))"
    by (simp add: moveStep_def x v geo_Suc algebra_simps)
  have 4: "pz (moveStep ?q) =
      pz p + real (Suc n) * pvz p - GRAVITY_Z * (real (Suc n) * (real (Suc n) - 1) / 2)"
    by (simp add: moveStep_def z w GRAVITY_Z_def field_simps)
  have 5: "ptype (moveStep ?q) = ptype p" by (simp add: moveStep_def t)
  from 1 2 3 4 5 show ?case by simp
qed

text \<open>
  A shot on a canvas 1024 wide: the sling at \<open>x = 512\<close>, pulled 87 to the right and
  released, so the projectile leaves with velocity \<open>(-13.05, 0)\<close> and \<open>vz = 13.05\<close>.
\<close>

definition launched :: Projectile where
  "launched = \<lparr>position = (512, 600), pz = 0, velocity = (- (87 * 0.15), 0), pvz = 87 * 0.15,
                active = True, ptype = PROBE\<rparr>"

lemma drag_powers: "AIR_DRAG ^ 54 < 111 / 145" "111 / 145 < AIR_DRAG ^ 53"
  by (simp_all add: AIR_DRAG_def power_divide)

lemma launched_airborne:
  assumes "1 \<le> m" "m \<le> 53"
  shows "0 < pz ((moveStep ^^ m) launched) \<and> \<not> outOfBounds 1024 ((moveStep ^^ m) launched)"
proof -
  have z: "pz ((moveStep ^^ m) launched) = real m * (87 * 0.15) - real m * (real m - 1) / 4"
    using moveStep_funpow [of m launched] by (simp add: launched_def GRAVITY_Z_def)
  have x: "position ((moveStep ^^ m) launched) = (512 - 87 * 0.15 * geo m, 600)"
    using moveStep_funpow [of m launched] by (simp add: launched_def)
  from assms have "real m - 1 \<le> 52" "0 < real m" by simp_all
  then have "real m * ((real m - 1) / 4) < real m * (87 * 0.15)"
    by (intro mult_strict_left_mono) simp_all
  with z have 1: "0 < pz ((moveStep ^^ m) launched)" by simp
  have "geo m \<le> geo 53" using assms(2) by (rule geo_mono)
  also have "\<dots> < 200 * (1 - 111 / 145)" unfolding geo_closed using drag_powers(2) by simp
  finally have "geo m < 200 * (1 - 111 / 145)" .
  with geo_nonneg [of m] x have 2: "\<not> outOfBounds 1024 ((moveStep ^^ m) launched)"
    by (simp add: outOfBounds_def)
  from 1 2 show ?thesis ..
qed

lemma launched_lands_outside:
  "pz ((moveStep ^^ 54) launched) \<le> 0 \<and> outOfBounds 1024 ((moveStep ^^ 54) launched) \<and>
   fst (position ((moveStep ^^ 54) launched)) < -100"
proof -
  have z: "pz ((moveStep ^^ 54) launched) = 54 * (87 * 0.15) - 54 * (54 - 1) / 4"
    using moveStep_funpow [of 54 launched] by (simp add: launched_def GRAVITY_Z_def)
  have x: "position ((moveStep ^^ 54) launched) = (512 - 87 * 0.15 * geo 54, 600)"
    using moveStep_funpow [of 54 launched] by (simp add: launched_def)
  have "200 * (1 - 111 / 145) < geo 54" unfolding geo_closed using drag_powers(1) by simp
  with x have "fst (position ((moveStep ^^ 54) launched)) < -100" by simp
  with z show ?thesis by (simp add: outOfBounds_def)
qed

text \<open>
  C4, at the shot above: the projectile is in the air and inside the margin for 53
  frames; the 54th frame finds it on the ground and left of the margin, and calls
  \<open>onHit\<close> twice, both times with the same position and type.
\<close>

theorem animate_fires_twice:
  "frames 60 1024 launched =
     [(position ((moveStep ^^ 54) launched), PROBE), (position ((moveStep ^^ 54) launched), PROBE)] \<and>
   length (frames 60 1024 launched) = 2 \<and>
   fst (position ((moveStep ^^ 54) launched)) < -100 \<and> pz ((moveStep ^^ 54) launched) \<le> 0"
proof -
  let ?q = "(moveStep ^^ 53) launched"
  have act: "active launched" by (simp add: launched_def)
  have "frames (53 + 7) 1024 launched = frames 7 1024 ?q"
    by (rule frames_airborne [OF act]) (rule launched_airborne)
  then have f: "frames 60 1024 launched = frames (Suc 6) 1024 ?q" by simp
  have q: "active ?q" using act by (simp add: moveStep_active)
  have m: "moveStep ?q = (moveStep ^^ 54) launched"
    by (simp add: eval_nat_numeral)
  from launched_lands_outside have l: "pz (moveStep ?q) \<le> 0" "outOfBounds 1024 (moveStep ?q)"
    unfolding m by simp_all
  from animate_both [OF q l] have
    a: "snd (animate 1024 ?q) = [(position (moveStep ?q), ptype ?q), (position (moveStep ?q), ptype ?q)]"
    and i: "\<not> active (fst (animate 1024 ?q))" by simp_all
  have t: "ptype ?q = PROBE" using moveStep_funpow [of 53 launched] by (simp add: launched_def)
  have "frames (Suc 6) 1024 ?q = snd (animate 1024 ?q) @ frames 6 1024 (fst (animate 1024 ?q))"
    by (simp only: frames.simps case_prod_beta)
  with a i t f have 1: "frames 60 1024 launched =
     [(position ((moveStep ^^ 54) launched), PROBE), (position ((moveStep ^^ 54) launched), PROBE)]"
    unfolding m by (simp add: frames_inactive)
  from 1 launched_lands_outside show ?thesis by simp
qed

section \<open>The range of a pull and the search for a pull\<close>

text \<open>The sum \<open>1 + d + ... + d^(n-1)\<close> of the drag factors of the first \<open>n\<close> ticks.\<close>

definition dragSum :: "nat \<Rightarrow> real" where
  "dragSum n = (\<Sum>i<n. PHYS_DRAG ^ i)"

text \<open>The height after \<open>i\<close> more ticks of the range loop, when it has not stopped before.\<close>

definition heightAfter :: "real \<Rightarrow> real \<Rightarrow> nat \<Rightarrow> real" where
  "heightAfter h vZ i = h + real i * vZ - PHYS_GRAVITY * (real i * (real i - 1) / 2)"

lemma dragSum_Suc': "dragSum (Suc n) = 1 + PHYS_DRAG * dragSum n"
  unfolding dragSum_def by (simp add: sum.lessThan_Suc_shift sum_distrib_left del: sum.lessThan_Suc)

lemma dragSum_closed: "dragSum n = 200 * (1 - PHYS_DRAG ^ n)"
  by (induction n) (simp_all add: dragSum_def PHYS_DRAG_def algebra_simps)

lemma dragSum_mono: "m \<le> n \<Longrightarrow> dragSum m \<le> dragSum n"
proof -
  assume "m \<le> n"
  then have "PHYS_DRAG ^ n \<le> PHYS_DRAG ^ m"
    by (intro power_decreasing) (simp_all add: PHYS_DRAG_def)
  then show ?thesis by (simp add: dragSum_closed)
qed

lemma heightAfter_shift:
  "heightAfter (h + vZ) (vZ - PHYS_GRAVITY) i = heightAfter h vZ (Suc i)"
  by (simp add: heightAfter_def field_simps)

text \<open>
  The range loop stops at the first tick that brings the height to 0 or below, or at
  its last tick, and returns the distance covered by then.
\<close>

lemma rangeLoop_ticks:
  assumes "1 \<le> j" and "j \<le> k"
    and "\<forall>i. 1 \<le> i \<and> i < j \<longrightarrow> 0 < heightAfter h vZ i"
    and "heightAfter h vZ j \<le> 0 \<or> j = k"
  shows "rangeLoop k vH vZ h d = d + vH * dragSum j"
  using assms
proof (induction k arbitrary: j vH vZ h d)
  case 0
  then show ?case by simp
next
  case (Suc k)
  have h1: "heightAfter h vZ 1 = h + vZ" by (simp add: heightAfter_def)
  show ?case
  proof (cases "h + vZ \<le> 0")
    case True
    have "j = 1"
    proof (rule ccontr)
      assume "j \<noteq> 1"
      with Suc.prems(1) have "1 < j" by simp
      with Suc.prems(3) have "0 < heightAfter h vZ 1" by simp
      with True h1 show False by simp
    qed
    with True show ?thesis by (simp add: dragSum_def)
  next
    case False
    show ?thesis
    proof (cases "j = 1")
      case True
      with Suc.prems(4) False h1 have "k = 0" by simp
      with True False show ?thesis by (simp add: dragSum_def)
    next
      case j: False
      with Suc.prems(1) obtain j' where j': "j = Suc j'" "1 \<le> j'" by (cases j) auto
      have "rangeLoop k (vH * PHYS_DRAG) (vZ - PHYS_GRAVITY) (h + vZ) (d + vH) =
            (d + vH) + (vH * PHYS_DRAG) * dragSum j'"
      proof (rule Suc.IH [OF j'(2)])
        show "j' \<le> k" using Suc.prems(2) j' by simp
        show "\<forall>i. 1 \<le> i \<and> i < j' \<longrightarrow> 0 < heightAfter (h + vZ) (vZ - PHYS_GRAVITY) i"
          using Suc.prems(3) j' by (simp add: heightAfter_shift)
        show "heightAfter (h + vZ) (vZ - PHYS_GRAVITY) j' \<le> 0 \<or> j' = k"
          using Suc.prems(4) j' by (simp add: heightAfter_shift)
      qed
      with False j' show ?thesis by (simp add: dragSum_Suc' algebra_simps)
    qed
  qed
qed

text \<open>The number of ticks the range loop makes for a pull.\<close>

definition ticksOf :: "real \<Rightarrow> nat" where
  "ticksOf pull = min 800 (nat \<lceil>4 * (pull * PHYS_Z_POWER)\<rceil> + 1)"

lemma simulateRange_closed:
  "simulateRange pull = pull * PHYS_POWER * dragSum (ticksOf pull)"
proof -
  let ?v = "pull * PHYS_Z_POWER"
  let ?j = "ticksOf pull"
  have H: "heightAfter 0 ?v i = real i * (?v - (real i - 1) / 4)" for i
    by (simp add: heightAfter_def PHYS_GRAVITY_def field_simps)
  have 1: "1 \<le> ?j" "?j \<le> 800" by (simp_all add: ticksOf_def)
  have 2: "\<forall>i. 1 \<le> i \<and> i < ?j \<longrightarrow> 0 < heightAfter 0 ?v i"
  proof (intro allI impI)
    fix i assume i: "1 \<le> i \<and> i < ?j"
    then have "i \<le> nat \<lceil>4 * ?v\<rceil>" unfolding ticksOf_def by linarith
    with i have "int i - 1 < \<lceil>4 * ?v\<rceil>" by linarith
    then have "real_of_int (int i - 1) < 4 * ?v" by (simp only: less_ceiling_iff)
    then have "0 < ?v - (real i - 1) / 4" by simp
    moreover from i have "0 < real i" by simp
    ultimately show "0 < heightAfter 0 ?v i" unfolding H by (rule mult_pos_pos [rotated])
  qed
  have 3: "heightAfter 0 ?v ?j \<le> 0 \<or> ?j = 800"
  proof (cases "?j = 800")
    case False
    then have j: "?j = nat \<lceil>4 * ?v\<rceil> + 1" by (simp add: ticksOf_def min_def split: if_splits)
    have "4 * ?v \<le> real_of_int \<lceil>4 * ?v\<rceil>" by (rule le_of_int_ceiling)
    also have "\<dots> \<le> real (nat \<lceil>4 * ?v\<rceil>)" by simp
    finally have "?v - (real ?j - 1) / 4 \<le> 0" unfolding j by simp
    moreover have "0 \<le> real ?j" by simp
    ultimately have "real ?j * (?v - (real ?j - 1) / 4) \<le> 0"
      by (simp add: mult_nonneg_nonpos)
    then show ?thesis unfolding H by simp
  qed simp
  from rangeLoop_ticks [OF 1 2 3, of "pull * PHYS_POWER" 0] show ?thesis
    by (simp add: simulateRange_def)
qed

lemma dragSum_nonneg: "0 \<le> dragSum n"
  by (simp add: dragSum_def PHYS_DRAG_def sum_nonneg)

lemma drag_powers': "473 / 500 \<le> PHYS_DRAG ^ 11" "PHYS_DRAG ^ 12 \<le> 471 / 500"
  by (simp_all add: PHYS_DRAG_def power_divide)

text \<open>No pull has a range between 27 and 29: at the pull 50/3 the loop goes from 11 to
  12 ticks and the range jumps over the interval.\<close>

lemma simulateRange_gap: "simulateRange pull \<le> 27 \<or> 29 \<le> simulateRange pull"
proof (cases "pull \<le> 50 / 3")
  case True
  show ?thesis
  proof (cases "pull \<le> 0")
    case True
    then have "pull * PHYS_POWER * dragSum (ticksOf pull) \<le> 0"
      using dragSum_nonneg [of "ticksOf pull"]
      by (simp add: PHYS_POWER_def mult_nonpos_nonneg)
    then show ?thesis by (simp add: simulateRange_closed)
  next
    case False
    from True have "4 * (pull * PHYS_Z_POWER) \<le> 10" by (simp add: PHYS_Z_POWER_def)
    then have "\<lceil>4 * (pull * PHYS_Z_POWER)\<rceil> \<le> 10" by (simp add: ceiling_le_iff)
    then have "ticksOf pull \<le> 11" unfolding ticksOf_def by linarith
    then have "dragSum (ticksOf pull) \<le> dragSum 11" by (rule dragSum_mono)
    also have "\<dots> \<le> 200 * (1 - 473 / 500)"
      unfolding dragSum_closed using drag_powers'(1) by simp
    finally have d: "dragSum (ticksOf pull) \<le> 54 / 5" by simp
    have "pull * PHYS_POWER * dragSum (ticksOf pull) \<le> (5 / 2) * (54 / 5)"
    proof (rule mult_mono)
      show "pull * PHYS_POWER \<le> 5 / 2" using True by (simp add: PHYS_POWER_def)
      show "dragSum (ticksOf pull) \<le> 54 / 5" by (rule d)
      show "0 \<le> (5 / 2 :: real)" by simp
      show "0 \<le> dragSum (ticksOf pull)" by (rule dragSum_nonneg)
    qed
    then show ?thesis by (simp add: simulateRange_closed)
  qed
next
  case False
  then have "10 < 4 * (pull * PHYS_Z_POWER)" by (simp add: PHYS_Z_POWER_def)
  then have "10 < \<lceil>4 * (pull * PHYS_Z_POWER)\<rceil>" by (simp add: less_ceiling_iff)
  then have "12 \<le> ticksOf pull" unfolding ticksOf_def by linarith
  then have "dragSum 12 \<le> dragSum (ticksOf pull)" by (rule dragSum_mono)
  moreover have "200 * (1 - 471 / 500) \<le> dragSum 12"
    unfolding dragSum_closed using drag_powers'(2) by simp
  ultimately have d: "58 / 5 \<le> dragSum (ticksOf pull)" by simp
  have "(5 / 2) * (58 / 5) \<le> pull * PHYS_POWER * dragSum (ticksOf pull)"
  proof (rule mult_mono)
    show "5 / 2 \<le> pull * PHYS_POWER" using False by (simp add: PHYS_POWER_def)
    show "58 / 5 \<le> dragSum (ticksOf pull)" by (rule d)
    show "0 \<le> pull * PHYS_POWER" using False by (simp add: PHYS_POWER_def)
    show "0 \<le> (58 / 5 :: real)" by simp
  qed
  then show ?thesis by (simp add: simulateRange_closed)
qed

text \<open>So the search cannot come within 1 of the target 28, whatever pull it returns.\<close>

lemma solveForPull_misses_28: "\<not> \<bar>simulateRange (solveForPull 28) - 28\<bar> < 1"
  using simulateRange_gap [of "solveForPull 28"] by auto

text \<open>Each round of the search halves the bracket and keeps the target between the
  ranges of its ends.\<close>

lemma bisect_bracket:
  assumes "mn \<le> mx" and "simulateRange mn < t" and "t \<le> simulateRange mx"
  shows "\<exists>mn' mx'. bisect k t mn mx = (mn', mx') \<and> mn \<le> mn' \<and> mn' \<le> mx' \<and> mx' \<le> mx \<and>
           mx' - mn' = (mx - mn) / 2 ^ k \<and> simulateRange mn' < t \<and> t \<le> simulateRange mx'"
  using assms
proof (induction k arbitrary: mn mx)
  case 0
  then show ?case by simp
next
  case (Suc k)
  let ?mid = "(mn + mx) / 2"
  have m: "mn \<le> ?mid" "?mid \<le> mx" using Suc.prems(1) by simp_all
  show ?case
  proof (cases "simulateRange ?mid < t")
    case True
    from Suc.IH [OF m(2) True Suc.prems(3)] obtain mn' mx' where
      r: "bisect k t ?mid mx = (mn', mx')" "?mid \<le> mn'" "mn' \<le> mx'" "mx' \<le> mx"
         "mx' - mn' = (mx - ?mid) / 2 ^ k" "simulateRange mn' < t" "t \<le> simulateRange mx'"
      by blast
    have "(mx - ?mid) / 2 ^ k = (mx - mn) / 2 ^ Suc k" by (simp add: field_simps)
    with r True m show ?thesis by (simp add: Let_def)
  next
    case False
    then have le: "t \<le> simulateRange ?mid" by simp
    from Suc.IH [OF m(1) Suc.prems(2) le] obtain mn' mx' where
      r: "bisect k t mn ?mid = (mn', mx')" "mn \<le> mn'" "mn' \<le> mx'" "mx' \<le> ?mid"
         "mx' - mn' = (?mid - mn) / 2 ^ k" "simulateRange mn' < t" "t \<le> simulateRange mx'"
      by blast
    have "(?mid - mn) / 2 ^ k = (mx - mn) / 2 ^ Suc k" by (simp add: field_simps)
    with r False m show ?thesis by (simp add: Let_def)
  qed
qed

lemma simulateRange_ends: "simulateRange 0 = 0" "3000 \<le> simulateRange 3000"
proof -
  show "simulateRange 0 = 0" by (simp add: simulateRange_closed)
  have t: "ticksOf 3000 = 800" by (simp add: ticksOf_def PHYS_Z_POWER_def)
  have "PHYS_DRAG ^ 800 \<le> PHYS_DRAG ^ 12"
    by (intro power_decreasing) (simp_all add: PHYS_DRAG_def)
  with drag_powers'(2) have "PHYS_DRAG ^ 800 \<le> 471 / 500" by simp
  then have "200 * (1 - 471 / 500) \<le> dragSum 800" by (simp add: dragSum_closed)
  then show "3000 \<le> simulateRange 3000"
    by (simp add: simulateRange_closed t PHYS_POWER_def)
qed

lemma simulateRange_mono:
  assumes "0 \<le> p" and "p \<le> q"
  shows "simulateRange p \<le> simulateRange q"
proof -
  have "\<lceil>4 * (p * PHYS_Z_POWER)\<rceil> \<le> \<lceil>4 * (q * PHYS_Z_POWER)\<rceil>"
    using assms(2) by (intro ceiling_mono) (simp add: PHYS_Z_POWER_def)
  then have "ticksOf p \<le> ticksOf q" unfolding ticksOf_def by linarith
  then have d: "dragSum (ticksOf p) \<le> dragSum (ticksOf q)" by (rule dragSum_mono)
  have "p * PHYS_POWER * dragSum (ticksOf p) \<le> q * PHYS_POWER * dragSum (ticksOf q)"
  proof (rule mult_mono)
    show "p * PHYS_POWER \<le> q * PHYS_POWER" using assms(2) by (simp add: PHYS_POWER_def)
    show "dragSum (ticksOf p) \<le> dragSum (ticksOf q)" by (rule d)
    show "0 \<le> q * PHYS_POWER" using assms by (simp add: PHYS_POWER_def)
    show "0 \<le> dragSum (ticksOf p)" by (rule dragSum_nonneg)
  qed
  then show ?thesis by (simp add: simulateRange_closed)
qed

subsection \<open>The height of a jump of the range\<close>

text \<open>The distance covered in tick \<open>k\<close>, up to the factor of the pull, grows with \<open>k\<close>
  over the first 200 ticks.\<close>

lemma drag_product_mono:
  "k \<le> n \<Longrightarrow> n \<le> 200 \<Longrightarrow> real k * PHYS_DRAG ^ k \<le> real n * PHYS_DRAG ^ n"
proof (induction n)
  case 0
  then show ?case by simp
next
  case (Suc n)
  show ?case
  proof (cases "k = Suc n")
    case True
    then show ?thesis by simp
  next
    case False
    with Suc.prems have kn: "k \<le> n" "n \<le> 200" by simp_all
    from Suc.prems(2) have "real n \<le> 199" by simp
    then have "real n \<le> real (Suc n) * PHYS_DRAG" by (simp add: PHYS_DRAG_def)
    moreover have "0 \<le> PHYS_DRAG ^ n" by (simp add: PHYS_DRAG_def)
    ultimately have "real n * PHYS_DRAG ^ n \<le> (real (Suc n) * PHYS_DRAG) * PHYS_DRAG ^ n"
      by (rule mult_right_mono)
    with Suc.IH [OF kn] show ?thesis by (simp add: mult.assoc)
  qed
qed

lemma drag_powers_128:
  "52905 / 100000 \<le> PHYS_DRAG ^ 127" "PHYS_DRAG ^ 128 \<le> 5265 / 10000"
  by (simp_all add: PHYS_DRAG_def power_divide)

lemma ticksOf_ceiling:
  assumes "0 \<le> p" and "p < 1000"
  shows "ticksOf p = nat \<lceil>3 * p / 5\<rceil> + 1"
proof -
  have e: "4 * (p * PHYS_Z_POWER) = 3 * p / 5" by (simp add: PHYS_Z_POWER_def)
  from assms(2) have "3 * p / 5 \<le> 600" by simp
  then have "\<lceil>3 * p / 5\<rceil> \<le> 600" by (simp add: ceiling_le_iff)
  then show ?thesis unfolding ticksOf_def e by simp
qed

text \<open>
  Two pulls that are close have ranges that differ by little more than the distance
  covered in one tick, the last one of the flight.
\<close>

lemma simulateRange_step:
  assumes p0: "0 \<le> p" and pq: "p \<le> q" and close: "q - p \<le> 1" and small: "p \<le> 635 / 3"
  shows "simulateRange q - simulateRange p \<le> PHYS_POWER * (q - p) * 201 + 127 * 5265 / 40000"
proof -
  define c where "c = nat \<lceil>3 * p / 5\<rceil>"
  have tp: "ticksOf p = c + 1" unfolding c_def using p0 small by (intro ticksOf_ceiling) simp_all
  have q0: "0 \<le> q" "q < 1000" using p0 pq close small by simp_all
  have tq: "ticksOf q = nat \<lceil>3 * q / 5\<rceil> + 1" using q0 by (rule ticksOf_ceiling)
  have c127: "c \<le> 127"
  proof -
    from small have "3 * p / 5 \<le> 127" by simp
    then have "\<lceil>3 * p / 5\<rceil> \<le> 127" by (simp add: ceiling_le_iff)
    then show ?thesis unfolding c_def by simp
  qed
  have pc: "3 * p / 5 \<le> real c"
  proof -
    have "3 * p / 5 \<le> real_of_int \<lceil>3 * p / 5\<rceil>" by (rule le_of_int_ceiling)
    also have "\<dots> \<le> real (nat \<lceil>3 * p / 5\<rceil>)" by simp
    finally show ?thesis unfolding c_def .
  qed
  have "3 * q / 5 \<le> 3 * p / 5 + 1" using close by simp
  also have "\<dots> \<le> real c + 1" using pc by simp
  finally have "3 * q / 5 \<le> real_of_int (int c + 1)" by simp
  then have "\<lceil>3 * q / 5\<rceil> \<le> int c + 1" by (simp only: ceiling_le_iff)
  then have "ticksOf q \<le> Suc (c + 1)" unfolding tq by linarith
  then have "dragSum (ticksOf q) \<le> dragSum (Suc (c + 1))" by (rule dragSum_mono)
  also have "\<dots> = dragSum (c + 1) + PHYS_DRAG ^ (c + 1)" by (simp add: dragSum_def)
  finally have sq: "dragSum (ticksOf q) \<le> dragSum (c + 1) + PHYS_DRAG ^ (c + 1)" .
  have s200: "dragSum (c + 1) \<le> 200"
    unfolding dragSum_closed by (simp add: PHYS_DRAG_def)
  have a1: "PHYS_DRAG ^ (c + 1) \<le> 1" by (intro power_le_one) (simp_all add: PHYS_DRAG_def)
  have a0: "0 \<le> PHYS_DRAG ^ (c + 1)" by (simp add: PHYS_DRAG_def)
  have last: "p * PHYS_POWER * PHYS_DRAG ^ (c + 1) \<le> 127 * 5265 / 40000"
  proof -
    have "p * PHYS_POWER \<le> real c / 4" using pc by (simp add: PHYS_POWER_def)
    then have "p * PHYS_POWER * PHYS_DRAG ^ (c + 1) \<le> (real c / 4) * PHYS_DRAG ^ (c + 1)"
      using a0 by (rule mult_right_mono)
    also have "\<dots> = (PHYS_DRAG / 4) * (real c * PHYS_DRAG ^ c)" by simp
    also have "\<dots> \<le> (PHYS_DRAG / 4) * (real 127 * PHYS_DRAG ^ 127)"
      using drag_product_mono [of c 127] c127
      by (intro mult_left_mono) (simp_all add: PHYS_DRAG_def)
    also have "\<dots> = (127 / 4) * PHYS_DRAG ^ 128"
      using power_Suc [of PHYS_DRAG 127] by simp
    also have "\<dots> \<le> (127 / 4) * (5265 / 10000)"
      using drag_powers_128(2) by (intro mult_left_mono) simp_all
    finally show ?thesis by simp
  qed
  have "simulateRange q = q * PHYS_POWER * dragSum (ticksOf q)" by (rule simulateRange_closed)
  also have "\<dots> \<le> q * PHYS_POWER * (dragSum (c + 1) + PHYS_DRAG ^ (c + 1))"
    using sq q0(1) by (intro mult_left_mono) (simp_all add: PHYS_POWER_def)
  finally have "simulateRange q - simulateRange p \<le>
      q * PHYS_POWER * (dragSum (c + 1) + PHYS_DRAG ^ (c + 1)) - p * PHYS_POWER * dragSum (c + 1)"
    by (simp add: simulateRange_closed [of p] tp)
  also have "\<dots> = PHYS_POWER * (q - p) * (dragSum (c + 1) + PHYS_DRAG ^ (c + 1)) +
      p * PHYS_POWER * PHYS_DRAG ^ (c + 1)"
    by (simp add: algebra_simps)
  also have "\<dots> \<le> PHYS_POWER * (q - p) * 201 + 127 * 5265 / 40000"
  proof (rule add_mono)
    show "PHYS_POWER * (q - p) * (dragSum (c + 1) + PHYS_DRAG ^ (c + 1)) \<le> PHYS_POWER * (q - p) * 201"
      using s200 a1 pq by (intro mult_left_mono) (simp_all add: PHYS_POWER_def)
    show "p * PHYS_POWER * PHYS_DRAG ^ (c + 1) \<le> 127 * 5265 / 40000" by (rule last)
  qed
  finally show ?thesis .
qed

text \<open>The pulls whose range is below 3000 are below 635/3.\<close>

lemma simulateRange_3000:
  assumes "0 \<le> p" and "simulateRange p < 3000"
  shows "p < 635 / 3"
proof (rule ccontr)
  assume "\<not> p < 635 / 3"
  then have "simulateRange (635 / 3) \<le> simulateRange p"
    by (intro simulateRange_mono) simp_all
  moreover have "3000 \<le> simulateRange (635 / 3)"
  proof -
    have t: "ticksOf (635 / 3) = 128" by (simp add: ticksOf_def PHYS_Z_POWER_def)
    have "200 * (1 - 5265 / 10000) \<le> dragSum 128"
      unfolding dragSum_closed using drag_powers_128(2) by simp
    then show ?thesis by (simp add: simulateRange_closed t PHYS_POWER_def)
  qed
  ultimately show False using assms(2) by simp
qed

subsection \<open>The search next to the jump at the pull 210\<close>

text \<open>At the pull 210 the loop goes from 127 to 128 ticks, and the range jumps from
  below 2967 to above 2983.\<close>

lemma simulateRange_below_210:
  assumes "p \<le> 210"
  shows "simulateRange p \<le> 2967"
proof (cases "p \<le> 0")
  case True
  then have "p * PHYS_POWER * dragSum (ticksOf p) \<le> 0"
    using dragSum_nonneg [of "ticksOf p"] by (simp add: PHYS_POWER_def mult_nonpos_nonneg)
  then show ?thesis by (simp add: simulateRange_closed)
next
  case False
  from assms have "4 * (p * PHYS_Z_POWER) \<le> 126" by (simp add: PHYS_Z_POWER_def)
  then have "\<lceil>4 * (p * PHYS_Z_POWER)\<rceil> \<le> 126" by (simp add: ceiling_le_iff)
  then have "ticksOf p \<le> 127" unfolding ticksOf_def by linarith
  then have "dragSum (ticksOf p) \<le> dragSum 127" by (rule dragSum_mono)
  also have "\<dots> \<le> 200 * (1 - 52905 / 100000)"
    unfolding dragSum_closed using drag_powers_128(1) by simp
  finally have d: "dragSum (ticksOf p) \<le> 9419 / 100" by simp
  have "p * PHYS_POWER * dragSum (ticksOf p) \<le> (63 / 2) * (9419 / 100)"
  proof (rule mult_mono)
    show "p * PHYS_POWER \<le> 63 / 2" using assms by (simp add: PHYS_POWER_def)
    show "dragSum (ticksOf p) \<le> 9419 / 100" by (rule d)
    show "0 \<le> (63 / 2 :: real)" by simp
    show "0 \<le> dragSum (ticksOf p)" by (rule dragSum_nonneg)
  qed
  then show ?thesis by (simp add: simulateRange_closed)
qed

lemma simulateRange_above_210:
  assumes "210 < p"
  shows "2983 \<le> simulateRange p"
proof -
  from assms have "126 < 4 * (p * PHYS_Z_POWER)" by (simp add: PHYS_Z_POWER_def)
  then have "126 < \<lceil>4 * (p * PHYS_Z_POWER)\<rceil>" by (simp add: less_ceiling_iff)
  then have "128 \<le> ticksOf p" unfolding ticksOf_def by linarith
  then have "dragSum 128 \<le> dragSum (ticksOf p)" by (rule dragSum_mono)
  moreover have "200 * (1 - 5265 / 10000) \<le> dragSum 128"
    unfolding dragSum_closed using drag_powers_128(2) by simp
  ultimately have d: "947 / 10 \<le> dragSum (ticksOf p)" by simp
  have "(63 / 2) * (947 / 10) \<le> p * PHYS_POWER * dragSum (ticksOf p)"
  proof (rule mult_mono)
    show "63 / 2 \<le> p * PHYS_POWER" using assms by (simp add: PHYS_POWER_def)
    show "947 / 10 \<le> dragSum (ticksOf p)" by (rule d)
    show "0 \<le> p * PHYS_POWER" using assms by (simp add: PHYS_POWER_def)
    show "0 \<le> (947 / 10 :: real)" by simp
  qed
  then show ?thesis by (simp add: simulateRange_closed)
qed

lemma simulateRange_2983: "simulateRange p < 2983 \<longleftrightarrow> p \<le> 210"
proof
  assume "simulateRange p < 2983"
  with simulateRange_above_210 [of p] show "p \<le> 210" by (cases "p \<le> 210") simp_all
next
  assume "p \<le> 210"
  from simulateRange_below_210 [OF this] show "simulateRange p < 2983" by simp
qed

text \<open>The 30 rounds of the search for the target 2983.\<close>

lemma bisect_2983:
  "bisect 30 2983 0 3000 = (28185722625 / 134217728, 3523215375 / 16777216)"
  by (simp add: eval_nat_numeral simulateRange_2983 Let_def)

text \<open>
  Claim C7 as stated, with any tolerance up to 16: for the target 2983 the search ends
  just below the pull 210, where the range is at most 2967.
\<close>

theorem solveForPull_counterexample: "\<not> \<bar>simulateRange (solveForPull 2983) - 2983\<bar> < 16"
proof -
  have "solveForPull 2983 \<le> 210" by (simp add: solveForPull_def bisect_2983)
  from simulateRange_below_210 [OF this] show ?thesis by simp
qed

text \<open>
  C7, as the code has it. For a target distance \<open>d\<close> with \<open>0 < d < 3000\<close> the range of
  the pull that the search returns is within 17 of \<open>d\<close>. The 30 rounds of the search
  end with a bracket \<open>[mn, mx]\<close> inside \<open>[0, 3000]\<close> of width \<open>3000 / 2^30\<close> whose lower
  end has a range below \<open>d\<close> and whose upper end has a range of at least \<open>d\<close>;
  \<open>solveForPull d\<close> is the middle of the bracket, and its range lies between the ranges
  of the two ends, which differ by less than 17.
\<close>

theorem solveForPull_tolerance:
  assumes "0 < d" and "d < 3000"
  shows "\<bar>simulateRange (solveForPull d) - d\<bar> < 17 \<and>
         (\<exists>mn mx. bisect 30 d 0 3000 = (mn, mx) \<and> solveForPull d = (mn + mx) / 2 \<and>
           0 \<le> mn \<and> mn < mx \<and> mx \<le> 3000 \<and> mx - mn = 3000 / 2 ^ 30 \<and>
           simulateRange mn < d \<and> d \<le> simulateRange mx \<and>
           simulateRange mn \<le> simulateRange (solveForPull d) \<and>
           simulateRange (solveForPull d) \<le> simulateRange mx \<and>
           simulateRange mx - simulateRange mn < 17)"
proof -
  have "simulateRange 0 < d" "d \<le> simulateRange 3000"
    using assms simulateRange_ends by simp_all
  from bisect_bracket [OF _ this, of 30] obtain mn mx where
    r: "bisect 30 d 0 3000 = (mn, mx)" "0 \<le> mn" "mn \<le> mx" "mx \<le> 3000"
       "mx - mn = (3000 - 0) / 2 ^ 30" "simulateRange mn < d" "d \<le> simulateRange mx"
    by auto
  from r(5) have lt: "mn < mx" by simp
  from r(1) have s: "solveForPull d = (mn + mx) / 2" by (simp add: solveForPull_def)
  have "simulateRange mn \<le> simulateRange ((mn + mx) / 2)"
    using r(2) lt by (intro simulateRange_mono) simp_all
  then have 1: "simulateRange mn \<le> simulateRange (solveForPull d)" unfolding s .
  have "simulateRange ((mn + mx) / 2) \<le> simulateRange mx"
    using r(2) lt by (intro simulateRange_mono) simp_all
  then have 2: "simulateRange (solveForPull d) \<le> simulateRange mx" unfolding s .
  have 3: "mx - mn = 3000 / 2 ^ 30" using r(5) by simp
  from r(6) assms(2) have "simulateRange mn < 3000" by simp
  from simulateRange_3000 [OF r(2) this] have small: "mn \<le> 635 / 3" by simp
  have w: "mx - mn \<le> 1 / 1000" unfolding 3 by simp
  then have "mx - mn \<le> 1" by simp
  from simulateRange_step [OF r(2) r(3) this small]
  have "simulateRange mx - simulateRange mn \<le> PHYS_POWER * (mx - mn) * 201 + 127 * 5265 / 40000" .
  also have "\<dots> \<le> PHYS_POWER * (1 / 1000) * 201 + 127 * 5265 / 40000"
    using w by (simp add: PHYS_POWER_def)
  also have "\<dots> < 17" by (simp add: PHYS_POWER_def)
  finally have 4: "simulateRange mx - simulateRange mn < 17" .
  from 1 2 4 r(6) r(7) have 5: "\<bar>simulateRange (solveForPull d) - d\<bar> < 17" by linarith
  have "\<exists>mn mx. bisect 30 d 0 3000 = (mn, mx) \<and> solveForPull d = (mn + mx) / 2 \<and>
           0 \<le> mn \<and> mn < mx \<and> mx \<le> 3000 \<and> mx - mn = 3000 / 2 ^ 30 \<and>
           simulateRange mn < d \<and> d \<le> simulateRange mx \<and>
           simulateRange mn \<le> simulateRange (solveForPull d) \<and>
           simulateRange (solveForPull d) \<le> simulateRange mx \<and>
           simulateRange mx - simulateRange mn < 17"
    by (intro exI [of _ mn] exI [of _ mx] conjI r(1) s r(2) lt r(4) 3 r(6) r(7) 1 2 4)
  with 5 show ?thesis by (rule conjI)
qed

theorem solveForPull_tolerance_witness:
  "\<bar>simulateRange (solveForPull 2983) - 2983\<bar> < 17 \<and>
   bisect 30 2983 0 3000 = (28185722625 / 134217728, 3523215375 / 16777216) \<and>
   solveForPull 2983 = 56371445625 / 268435456 \<and>
   simulateRange (28185722625 / 134217728) < 2983 \<and>
   2983 \<le> simulateRange (3523215375 / 16777216)"
proof -
  have "(0 :: real) < 2983" "(2983 :: real) < 3000" by simp_all
  from solveForPull_tolerance [OF this] obtain mn mx where
    r: "\<bar>simulateRange (solveForPull 2983) - 2983\<bar> < 17"
       "bisect 30 2983 0 3000 = (mn, mx)" "solveForPull 2983 = (mn + mx) / 2"
       "simulateRange mn < 2983" "2983 \<le> simulateRange mx"
    by blast
  from r(2) have e: "mn = 28185722625 / 134217728" "mx = 3523215375 / 16777216"
    by (simp_all add: bisect_2983)
  from r(3) have m: "solveForPull 2983 = 56371445625 / 268435456" unfolding e by simp
  show ?thesis
    by (intro conjI r(1) bisect_2983 m r(4) [unfolded e] r(5) [unfolded e])
qed

section \<open>Landing prediction\<close>

lemma landLoop_iterates:
  "\<exists>N. N \<le> k \<and> (0 < k \<longrightarrow> 1 \<le> N) \<and> landLoop k s = (tick ^^ N) s \<and>
       (\<forall>m. 1 \<le> m \<and> m < N \<longrightarrow> 0 < altitude ((tick ^^ m) s)) \<and>
       (0 < k \<longrightarrow> altitude ((tick ^^ N) s) \<le> 0 \<or> N = k)"
proof (induction k arbitrary: s)
  case 0
  show ?case by (rule exI [of _ 0]) simp
next
  case (Suc k)
  show ?case
  proof (cases "altitude (tick s) \<le> 0")
    case True
    then show ?thesis by (intro exI [of _ 1]) (simp add: Let_def)
  next
    case False
    from Suc.IH [of "tick s"] obtain N where
      n: "N \<le> k" "0 < k \<longrightarrow> 1 \<le> N" "landLoop k (tick s) = (tick ^^ N) (tick s)"
         "\<forall>m. 1 \<le> m \<and> m < N \<longrightarrow> 0 < altitude ((tick ^^ m) (tick s))"
         "0 < k \<longrightarrow> altitude ((tick ^^ N) (tick s)) \<le> 0 \<or> N = k"
      by blast
    have sw: "(tick ^^ j) (tick s) = (tick ^^ Suc j) s" for j by (simp add: funpow_swap1)
    have 1: "landLoop (Suc k) s = (tick ^^ Suc N) s" using False n(3) sw by (simp add: Let_def)
    have 2: "\<forall>m. 1 \<le> m \<and> m < Suc N \<longrightarrow> 0 < altitude ((tick ^^ m) s)"
    proof (intro allI impI)
      fix m assume m: "1 \<le> m \<and> m < Suc N"
      show "0 < altitude ((tick ^^ m) s)"
      proof (cases "m = 1")
        case True
        with False show ?thesis by simp
      next
        case False
        with m obtain j where j: "m = Suc j" "1 \<le> j" "j < N" by (cases m) auto
        with n(4) have "0 < altitude ((tick ^^ j) (tick s))" by blast
        with j sw show ?thesis by simp
      qed
    qed
    have 3: "altitude ((tick ^^ Suc N) s) \<le> 0 \<or> Suc N = Suc k"
    proof (cases "k = 0")
      case True
      with n(1) show ?thesis by simp
    next
      case False
      with n(5) sw show ?thesis by auto
    qed
    show ?thesis
      by (rule exI [of _ "Suc N"]) (use 1 2 3 n(1) in simp)
  qed
qed

text \<open>
  The loop variables after \<open>n\<close> ticks, in closed form: the position has moved by the
  velocity times \<open>1 + 0.995 + ... + 0.995^(n-1)\<close>, and \<open>z\<close> has gained \<open>n\<close> times the
  vertical speed less \<open>0.5 * (0 + 1 + ... + (n-1))\<close>.
\<close>

lemma tick_funpow:
  "(tick ^^ n) (x, y, z, vx, vy, vz) =
     (x + vx * (\<Sum>i<n. 0.995 ^ i), y + vy * (\<Sum>i<n. 0.995 ^ i),
      z + real n * vz - 0.5 * (real n * (real n - 1) / 2),
      vx * 0.995 ^ n, vy * 0.995 ^ n, vz - 0.5 * real n)"
proof (induction n)
  case 0
  show ?case by simp
next
  case (Suc n)
  have "(tick ^^ Suc n) (x, y, z, vx, vy, vz) = tick ((tick ^^ n) (x, y, z, vx, vy, vz))"
    by simp
  also have "\<dots> = (x + vx * (\<Sum>i<Suc n. 0.995 ^ i), y + vy * (\<Sum>i<Suc n. 0.995 ^ i),
      z + real (Suc n) * vz - 0.5 * (real (Suc n) * (real (Suc n) - 1) / 2),
      vx * 0.995 ^ Suc n, vy * 0.995 ^ Suc n, vz - 0.5 * real (Suc n))"
    unfolding Suc by (simp add: tick_def PHYS_DRAG_def PHYS_GRAVITY_def field_simps)
  finally show ?case .
qed

lemma altitude_funpow:
  "altitude ((tick ^^ n) (x, y, z, vx, vy, vz)) = z + real n * vz - 0.5 * (real n * (real n - 1) / 2)"
  unfolding tick_funpow by (simp add: altitude_def)

lemma calculateLandingPos_ticks:
  "\<exists>N. 1 \<le> N \<and> N \<le> 800 \<and>
     calculateLandingPos (x0, y0) (vx, vy) vz =
       (x0 + vx * (\<Sum>i<N. 0.995 ^ i), y0 + vy * (\<Sum>i<N. 0.995 ^ i)) \<and>
     (\<forall>m. 1 \<le> m \<and> m < N \<longrightarrow> 0 < real m * vz - 0.5 * (real m * (real m - 1) / 2)) \<and>
     (real N * vz - 0.5 * (real N * (real N - 1) / 2) \<le> 0 \<or> N = 800)"
proof -
  let ?s = "(x0, y0, 0, vx, vy, vz) :: flight"
  from landLoop_iterates [of 800 ?s] obtain N where
    n: "N \<le> 800" "1 \<le> N" "landLoop 800 ?s = (tick ^^ N) ?s"
       "\<forall>m. 1 \<le> m \<and> m < N \<longrightarrow> 0 < altitude ((tick ^^ m) ?s)"
       "altitude ((tick ^^ N) ?s) \<le> 0 \<or> N = 800"
    by auto
  have 1: "calculateLandingPos (x0, y0) (vx, vy) vz =
       (x0 + vx * (\<Sum>i<N. 0.995 ^ i), y0 + vy * (\<Sum>i<N. 0.995 ^ i))"
    by (simp add: calculateLandingPos_def n(3) tick_funpow ground_def)
  from n(4) have 2: "\<forall>m. 1 \<le> m \<and> m < N \<longrightarrow> 0 < real m * vz - 0.5 * (real m * (real m - 1) / 2)"
    by (simp add: altitude_funpow)
  from n(5) have 3: "real N * vz - 0.5 * (real N * (real N - 1) / 2) \<le> 0 \<or> N = 800"
    by (simp add: altitude_funpow)
  show ?thesis by (intro exI [of _ N] conjI n(2) n(1) 1 2 3)
qed

text \<open>
  C8. The landing predictor returns the \<open>x\<close> and \<open>y\<close> reached after \<open>N\<close> ticks from the
  start position with \<open>z = 0\<close>, where \<open>1 \<le> N \<le> 800\<close>, \<open>z\<close> is positive after each
  of the ticks before the \<open>N\<close>-th, and \<open>z\<close> after the \<open>N\<close>-th is at most 0 unless
  \<open>N = 800\<close>: the first tick at which \<open>z \<le> 0\<close> after the update, or the 800-th when
  there is none before. One tick adds the velocity to the position and \<open>vz\<close> to \<open>z\<close>,
  takes 0.5 from \<open>vz\<close> and multiplies both velocity components by 0.995; so after
  \<open>m\<close> ticks the position has moved by the velocity times
  \<open>1 + 0.995 + ... + 0.995^(m-1)\<close> and \<open>z\<close> is \<open>m * vz - 0.5 * (0 + 1 + ... + (m-1))\<close>.
\<close>

theorem calculateLandingPos_first_landing:
  "\<exists>N x y z wx wy wz. 1 \<le> N \<and> N \<le> 800 \<and>
     (tick ^^ N) (x0, y0, 0, vx, vy, vz) = (x, y, z, wx, wy, wz) \<and>
     calculateLandingPos (x0, y0) (vx, vy) vz = (x, y) \<and>
     (z \<le> 0 \<or> N = 800) \<and>
     (\<forall>m. 1 \<le> m \<and> m < N \<longrightarrow> 0 < fst (snd (snd ((tick ^^ m) (x0, y0, 0, vx, vy, vz))))) \<and>
     x = x0 + vx * (\<Sum>i<N. 0.995 ^ i) \<and> y = y0 + vy * (\<Sum>i<N. 0.995 ^ i) \<and>
     z = real N * vz - 0.5 * (real N * (real N - 1) / 2) \<and>
     (\<forall>m. fst (snd (snd ((tick ^^ m) (x0, y0, 0, vx, vy, vz)))) =
          real m * vz - 0.5 * (real m * (real m - 1) / 2)) \<and>
     tick (a, b, c, wa, wb, wc) = (a + wa, b + wb, c + wc, wa * 0.995, wb * 0.995, wc - 0.5)"
proof -
  let ?S = "\<lambda>n. (\<Sum>i<n. (0.995 :: real) ^ i)"
  let ?Z = "\<lambda>n. real n * vz - 0.5 * (real n * (real n - 1) / 2)"
  from calculateLandingPos_ticks [of x0 y0 vx vy vz] obtain N where
    n: "1 \<le> N" "N \<le> 800"
       "calculateLandingPos (x0, y0) (vx, vy) vz = (x0 + vx * ?S N, y0 + vy * ?S N)"
       "\<forall>m. 1 \<le> m \<and> m < N \<longrightarrow> 0 < ?Z m"
       "?Z N \<le> 0 \<or> N = 800"
    by blast
  have z: "fst (snd (snd ((tick ^^ m) (x0, y0, 0, vx, vy, vz)))) = ?Z m" for m
    by (simp add: tick_funpow)
  have 1: "(tick ^^ N) (x0, y0, 0, vx, vy, vz) =
       (x0 + vx * ?S N, y0 + vy * ?S N, ?Z N, vx * 0.995 ^ N, vy * 0.995 ^ N, vz - 0.5 * real N)"
    by (simp add: tick_funpow)
  have 2: "\<forall>m. 1 \<le> m \<and> m < N \<longrightarrow> 0 < fst (snd (snd ((tick ^^ m) (x0, y0, 0, vx, vy, vz))))"
    using n(4) unfolding z .
  have 3: "\<forall>m. fst (snd (snd ((tick ^^ m) (x0, y0, 0, vx, vy, vz)))) = ?Z m"
    using z by blast
  have t: "tick (a, b, c, wa, wb, wc) = (a + wa, b + wb, c + wc, wa * 0.995, wb * 0.995, wc - 0.5)"
    by (simp add: tick_def PHYS_DRAG_def PHYS_GRAVITY_def)
  show ?thesis
    by (intro exI [of _ N] exI [of _ "x0 + vx * ?S N"] exI [of _ "y0 + vy * ?S N"]
          exI [of _ "?Z N"] exI [of _ "vx * 0.995 ^ N"] exI [of _ "vy * 0.995 ^ N"]
          exI [of _ "vz - 0.5 * real N"] conjI n(1) n(2) 1 n(3) n(5) 2 refl 3 t)
qed

theorem calculateLandingPos_first_landing_witness:
  "calculateLandingPos (3, 4) (1, 2) (1 / 2) = (239401 / 40000, 199401 / 20000)"
proof -
  let ?Z = "\<lambda>n. real n * (1 / 2) - 0.5 * (real n * (real n - 1) / 2)"
  from calculateLandingPos_first_landing [of 3 4 1 2 "1 / 2" 0 0 0 0 0 0] obtain N x y z where
    n: "1 \<le> N" "calculateLandingPos (3, 4) (1, 2) (1 / 2) = (x, y)" "z \<le> 0 \<or> N = 800"
       "x = 3 + 1 * (\<Sum>i<N. 0.995 ^ i)" "y = 4 + 2 * (\<Sum>i<N. 0.995 ^ i)"
       "z = ?Z N"
       "\<forall>m. 1 \<le> m \<and> m < N \<longrightarrow> 0 < fst (snd (snd ((tick ^^ m) (3, 4, 0, 1, 2, 1 / 2))))"
       "\<forall>m. fst (snd (snd ((tick ^^ m) (3, 4, 0, 1, 2, 1 / 2)))) = ?Z m"
    by blast
  from n(7) n(8) have up: "\<forall>m. 1 \<le> m \<and> m < N \<longrightarrow> 0 < ?Z m" by simp
  have "N = 3"
  proof (rule ccontr)
    assume ne: "N \<noteq> 3"
    show False
    proof (cases "N < 3")
      case True
      with n(1) have "N = 1 \<or> N = 2" by linarith
      with n(3) n(6) show False by auto
    next
      case False
      with ne have "3 < N" by simp
      with up [rule_format, of 3] have "0 < ?Z 3" by simp
      then show False by simp
    qed
  qed
  with n(2) n(4) n(5) show ?thesis by (simp add: numeral_3_eq_3)
qed

text \<open>The cap: a projectile thrown up fast enough is still in the air after 800 ticks,
  and the predictor returns where it is then.\<close>

lemma calculateLandingPos_cap:
  "calculateLandingPos (0, 0) (1, 0) 1000 = ((\<Sum>i<800. 0.995 ^ i), 0)"
proof -
  let ?Z = "\<lambda>n. real n * 1000 - 0.5 * (real n * (real n - 1) / 2)"
  from calculateLandingPos_ticks [of 0 0 1 0 1000] obtain N where
    n: "1 \<le> N" "N \<le> 800"
       "calculateLandingPos (0, 0) (1, 0) 1000 = (0 + 1 * (\<Sum>i<N. 0.995 ^ i), 0 + 0 * (\<Sum>i<N. 0.995 ^ i))"
       "?Z N \<le> 0 \<or> N = 800"
    by blast
  have "0 < ?Z N"
  proof -
    have "?Z N = real N * (1000 - (real N - 1) / 4)" by (simp add: field_simps)
    moreover have "0 < real N" using n(1) by simp
    moreover have "0 < 1000 - (real N - 1) / 4" using n(2) by simp
    ultimately show ?thesis by simp
  qed
  with n(4) have "N = 800" by simp
  with n(3) show ?thesis by simp
qed

section \<open>Level progression\<close>

text \<open>
  C9. Level \<open>n\<close> has grid size \<open>min(5 + (n-1)*5, 30)\<close> and
  \<open>floor(size\<^sup>2 * min(0.10 + 0.01 n, 0.20))\<close> mines; level 1 has size 5 and
  \<open>floor(25 * 0.11) = 2\<close> mines, level 6 has size 30 and \<open>floor(900 * 0.16) = 144\<close>
  mines.
\<close>

theorem initLevel_size_and_mines:
  "gridSize (initLevel n) = min (5 + (n - 1) * 5) 30 \<and>
   mineCount (initLevel n) =
     \<lfloor>real_of_int (gridSize (initLevel n) * gridSize (initLevel n)) * min (0.10 + 0.01 * real_of_int n) 0.20\<rfloor> \<and>
   gridSize (initLevel 1) = 5 \<and> mineCount (initLevel 1) = \<lfloor>25 * (0.11 :: real)\<rfloor> \<and>
   mineCount (initLevel 1) = 2 \<and>
   gridSize (initLevel 6) = 30 \<and> mineCount (initLevel 6) = \<lfloor>900 * (0.16 :: real)\<rfloor> \<and>
   mineCount (initLevel 6) = 144"
proof -
  have a: "gridSize (initLevel n) = min (5 + (n - 1) * 5) 30"
    by (simp add: initLevel_def Let_def START_SIZE_def SIZE_INCREMENT_def MAX_SIZE_def)
  have b: "mineCount (initLevel n) =
     \<lfloor>real_of_int (gridSize (initLevel n) * gridSize (initLevel n)) * min (0.10 + 0.01 * real_of_int n) 0.20\<rfloor>"
    by (simp add: initLevel_def Let_def mult.commute)
  have c: "initLevel 1 = \<lparr>gridSize = 5, mineCount = 2\<rparr>"
    by (simp add: initLevel_def Let_def START_SIZE_def SIZE_INCREMENT_def MAX_SIZE_def)
  have d: "initLevel 6 = \<lparr>gridSize = 30, mineCount = 144\<rparr>"
    by (simp add: initLevel_def Let_def START_SIZE_def SIZE_INCREMENT_def MAX_SIZE_def)
  have e: "\<lfloor>25 * (0.11 :: real)\<rfloor> = 2" "\<lfloor>900 * (0.16 :: real)\<rfloor> = 144" by simp_all
  show ?thesis using a b c d e by simp
qed

end
